theory Spec2Isabelle
  imports Main "HOL-Library.Word"
begin

section \<open>Data model (Scheduler.h)\<close>

text \<open>
  \<^verbatim>\<open>typedef uint16_t PID_t\<close>; clock values are \<^verbatim>\<open>uint32_t\<close> milliseconds.  The
  target is a 32-bit microcontroller, so \<^verbatim>\<open>long\<close> and \<^verbatim>\<open>unsigned long\<close> are 32 bits
  wide: \<^verbatim>\<open>(long)(now - executeAt) >= 0\<close> is read with \<open>sint\<close>, and the field
  \<^verbatim>\<open>long conditionWait\<close> is stored as a 32-bit word read with \<open>sint\<close>.
\<close>

type_synonym PID_t = "16 word"
type_synonym u32 = "32 word"

text \<open>
  A predicate \<^verbatim>\<open>std::function<bool()>\<close> is either the lambda \<^verbatim>\<open>[](){ return true; }\<close>
  that the scheduler itself installs, or a user predicate, identified by a number and
  read from the environment of the tick (a valuation \<open>nat \<Rightarrow> bool\<close> handed to \<open>loop\<close>):
  predicates do not call back into the scheduler, and a predicate gives the same answer
  each time it is asked within one tick.  The empty \<^verbatim>\<open>std::function\<close> is \<open>None\<close>.
\<close>

datatype cond = AlwaysTrue | Pred nat

text \<open>
  An action \<^verbatim>\<open>std::function<void()>\<close> may call back into the scheduler.  It is
  represented by a label and the sequence of scheduler calls it makes; the clock reading
  of \<^verbatim>\<open>setAndStartSequentialMode\<close> is a parameter of the call.  Actions are callable
  (non-empty), and they do not call \<^verbatim>\<open>loop\<close> themselves.
\<close>

datatype action = Action (label: nat) (cmds: "cmd list")
and cmd =
    AddTimedTask action u32 bool u32
  | AddConditionalTask action "cond option" u32
  | AddConditionalTimedTask action "cond option" u32 u32
  | RemoveTask PID_t
  | SetRepeatingTaskInterval PID_t u32
  | SetAndStartSequentialMode bool u32
  | Hold
  | Resume
  | Stop

text \<open>
  The task struct of Scheduler.h.  Scheduler.cpp still calls the action field
  \<^verbatim>\<open>action\<close>; \<open>onTimeout\<close> (here the label of the callback) is declared in the header, but
  Scheduler.cpp neither assigns nor calls it, so it keeps its default, the empty function.
\<close>

record Task =
  PID :: PID_t
  onExecute :: action
  onTimeout :: "nat option"
  repeat :: bool
  interval :: u32
  condition :: "cond option"
  conditionMet :: bool
  conditionWait :: u32
  postConditionDelay :: u32
  executeAt :: u32

text \<open>The messages written to \<^verbatim>\<open>gLogger\<close>.\<close>

datatype logmsg = WarnRepeatSequential | ErrTooManyTasks | ErrModifyInLoop | ErrNoCondition

text \<open>
  The scheduler object.  \<open>logged\<close> collects the logger output and \<open>trace\<close> records every
  action invocation (PID of the task and the action); both are observations only, the
  code never reads them.
\<close>

record sched =
  tasks :: "Task list"
  sequentialMode :: bool
  lastSequentialFinishTime :: u32
  will_stop :: bool
  tasksToRemove :: "PID_t list"
  nextPID :: PID_t
  onHold :: bool
  inLoop :: bool
  logged :: "logmsg list"
  trace :: "(PID_t \<times> action) list"

definition MAX_TASKS :: nat where
  "MAX_TASKS = 124"

definition init :: sched where
  "init = \<lparr> tasks = [], sequentialMode = False, lastSequentialFinishTime = 0,
            will_stop = False, tasksToRemove = [], nextPID = 1, onHold = False,
            inLoop = False, logged = [], trace = [] \<rparr>"

subsection \<open>Task helpers\<close>

definition indefinite :: "Task \<Rightarrow> bool" where
  "indefinite t = (sint (conditionWait t) \<le> 0)"

definition conditionTrue :: "(nat \<Rightarrow> bool) \<Rightarrow> Task \<Rightarrow> bool" where
  "conditionTrue pv t =
     (case condition t of None \<Rightarrow> False | Some AlwaysTrue \<Rightarrow> True | Some (Pred n) \<Rightarrow> pv n)"

definition setExecutionTime :: "u32 \<Rightarrow> Task \<Rightarrow> Task" where
  "setExecutionTime time t = t\<lparr>executeAt := (if time = 0 then 1 else time)\<rparr>"

subsection \<open>Lookup, update and erase by PID (\<^verbatim>\<open>std::find_if\<close> on the vector)\<close>

definition findByPID :: "PID_t \<Rightarrow> Task list \<Rightarrow> Task option" where
  "findByPID pid ts = find (\<lambda>t. PID t = pid) ts"

fun eraseByPID :: "PID_t \<Rightarrow> Task list \<Rightarrow> Task list" where
  "eraseByPID pid [] = []"
| "eraseByPID pid (t # ts) = (if PID t = pid then ts else t # eraseByPID pid ts)"

fun modifyTaskByPID :: "PID_t \<Rightarrow> Task \<Rightarrow> Task list \<Rightarrow> Task list" where
  "modifyTaskByPID pid new [] = []"
| "modifyTaskByPID pid new (t # ts) =
     (if PID t = pid then new # ts else t # modifyTaskByPID pid new ts)"

definition getTaskActionByPID :: "PID_t \<Rightarrow> sched \<Rightarrow> action option" where
  "getTaskActionByPID pid s = map_option onExecute (findByPID pid (tasks s))"

definition taskCount :: "sched \<Rightarrow> nat" where
  "taskCount s = length (tasks s)"

definition clearMarkedForRemoval :: "sched \<Rightarrow> sched" where
  "clearMarkedForRemoval s =
     s\<lparr>tasks := fold eraseByPID (tasksToRemove s) (tasks s), tasksToRemove := []\<rparr>"

section \<open>PID allocator\<close>

text \<open>
  The \<^verbatim>\<open>do { ... } while (collision)\<close> loop of \<^verbatim>\<open>getAndIncrementPID\<close>: while some task
  holds the candidate, increment it, skipping 0.  The loop does not return when every
  nonzero PID is taken, hence the option type.
\<close>

definition nextCandidate :: "PID_t \<Rightarrow> PID_t" where
  "nextCandidate n = (if n + 1 = 0 then 1 else n + 1)"

partial_function (option) findFreePID :: "Task list \<Rightarrow> PID_t \<Rightarrow> PID_t option" where
  "findFreePID ts n =
     (if list_ex (\<lambda>t. PID t = n) ts
      then findFreePID ts (nextCandidate n)
      else Some n)"

declare findFreePID.simps [code]

definition getAndIncrementPID :: "sched \<Rightarrow> (PID_t \<times> sched) option" where
  "getAndIncrementPID s =
     (case findFreePID (tasks s) (if nextPID s = 0 then 1 else nextPID s) of
        None \<Rightarrow> None
      | Some n \<Rightarrow> Some (n, s\<lparr>nextPID := n + 1\<rparr>))"

section \<open>Control API (Scheduler.cpp)\<close>

definition setAndStartSequentialMode :: "bool \<Rightarrow> u32 \<Rightarrow> sched \<Rightarrow> sched" where
  "setAndStartSequentialMode seq now s =
     (if seq then s\<lparr>sequentialMode := seq, lastSequentialFinishTime := now\<rparr>
      else s\<lparr>sequentialMode := seq\<rparr>)"

definition pushTask :: "Task \<Rightarrow> sched \<Rightarrow> (PID_t \<times> sched) option" where
  "pushTask t s =
     (case getAndIncrementPID s of
        None \<Rightarrow> None
      | Some (pid, s') \<Rightarrow> Some (pid, s'\<lparr>tasks := tasks s' @ [t\<lparr>PID := pid\<rparr>]\<rparr>))"

definition addTimedTask ::
  "action \<Rightarrow> u32 \<Rightarrow> bool \<Rightarrow> u32 \<Rightarrow> sched \<Rightarrow> (PID_t \<times> sched) option" where
  "addTimedTask act delayMs rep ival s =
     (let s1 = (if sequentialMode s \<and> rep
                then s\<lparr>logged := logged s @ [WarnRepeatSequential]\<rparr> else s);
          rep1 = (if sequentialMode s \<and> rep then False else rep)
      in if taskCount s1 \<ge> MAX_TASKS
         then Some (0, s1\<lparr>logged := logged s1 @ [ErrTooManyTasks]\<rparr>)
         else pushTask \<lparr> PID = 0, onExecute = act, onTimeout = None, repeat = rep1,
                         interval = ival, condition = Some AlwaysTrue,
                         conditionMet = False, conditionWait = 0,
                         postConditionDelay = delayMs, executeAt = 0 \<rparr> s1)"

definition addConditionalTask ::
  "action \<Rightarrow> cond option \<Rightarrow> u32 \<Rightarrow> sched \<Rightarrow> (PID_t \<times> sched) option" where
  "addConditionalTask act c conditionWaitMs s =
     (if taskCount s \<ge> MAX_TASKS
      then Some (0, s\<lparr>logged := logged s @ [ErrTooManyTasks]\<rparr>)
      else pushTask \<lparr> PID = 0, onExecute = act, onTimeout = None, repeat = False,
                      interval = 0, condition = c, conditionMet = False,
                      conditionWait = conditionWaitMs, postConditionDelay = 0,
                      executeAt = 0 \<rparr> s)"

definition addConditionalTimedTask ::
  "action \<Rightarrow> cond option \<Rightarrow> u32 \<Rightarrow> u32 \<Rightarrow> sched \<Rightarrow> (PID_t \<times> sched) option" where
  "addConditionalTimedTask act c postDelayMs conditionWaitMs s =
     (if taskCount s \<ge> MAX_TASKS
      then Some (0, s\<lparr>logged := logged s @ [ErrTooManyTasks]\<rparr>)
      else pushTask \<lparr> PID = 0, onExecute = act, onTimeout = None, repeat = False,
                      interval = 0, condition = c, conditionMet = False,
                      conditionWait = conditionWaitMs, postConditionDelay = postDelayMs,
                      executeAt = 0 \<rparr> s)"

definition removeTask :: "PID_t \<Rightarrow> sched \<Rightarrow> bool \<times> sched" where
  "removeTask pid s =
     (case findByPID pid (tasks s) of
        None \<Rightarrow> (False, s)
      | Some t \<Rightarrow> (True, s\<lparr>tasksToRemove := tasksToRemove s @ [pid]\<rparr>))"

fun setIntervalIn :: "PID_t \<Rightarrow> u32 \<Rightarrow> Task list \<Rightarrow> bool \<times> Task list" where
  "setIntervalIn pid iv [] = (False, [])"
| "setIntervalIn pid iv (t # ts) =
     (if PID t = pid
      then (if \<not> repeat t then (False, t # ts)
            else (True, t\<lparr>postConditionDelay := iv, interval := iv, executeAt := 0\<rparr> # ts))
      else (fst (setIntervalIn pid iv ts), t # snd (setIntervalIn pid iv ts)))"

definition setRepeatingTaskInterval :: "PID_t \<Rightarrow> u32 \<Rightarrow> sched \<Rightarrow> bool \<times> sched" where
  "setRepeatingTaskInterval pid iv s =
     (if inLoop s then (False, s\<lparr>logged := logged s @ [ErrModifyInLoop]\<rparr>)
      else (fst (setIntervalIn pid iv (tasks s)),
            s\<lparr>tasks := snd (setIntervalIn pid iv (tasks s))\<rparr>))"

definition stop :: "sched \<Rightarrow> sched" where
  "stop s = s\<lparr>will_stop := True, tasksToRemove := tasksToRemove s @ map PID (tasks s)\<rparr>"

definition hold :: "sched \<Rightarrow> sched" where
  "hold s = s\<lparr>onHold := True\<rparr>"

definition resume :: "sched \<Rightarrow> sched" where
  "resume s = s\<lparr>onHold := False\<rparr>"

subsection \<open>Running an action\<close>

definition exec_cmd :: "cmd \<Rightarrow> sched \<Rightarrow> sched option" where
  "exec_cmd c s =
     (case c of
        AddTimedTask a d r i \<Rightarrow> map_option snd (addTimedTask a d r i s)
      | AddConditionalTask a p w \<Rightarrow> map_option snd (addConditionalTask a p w s)
      | AddConditionalTimedTask a p d w \<Rightarrow> map_option snd (addConditionalTimedTask a p d w s)
      | RemoveTask pid \<Rightarrow> Some (snd (removeTask pid s))
      | SetRepeatingTaskInterval pid iv \<Rightarrow> Some (snd (setRepeatingTaskInterval pid iv s))
      | SetAndStartSequentialMode b now \<Rightarrow> Some (setAndStartSequentialMode b now s)
      | Hold \<Rightarrow> Some (hold s)
      | Resume \<Rightarrow> Some (resume s)
      | Stop \<Rightarrow> Some (stop s))"

fun exec_cmds :: "cmd list \<Rightarrow> sched \<Rightarrow> sched option" where
  "exec_cmds [] s = Some s"
| "exec_cmds (c # cs) s =
     (case exec_cmd c s of None \<Rightarrow> None | Some s' \<Rightarrow> exec_cmds cs s')"

definition run_action :: "PID_t \<Rightarrow> action \<Rightarrow> sched \<Rightarrow> sched option" where
  "run_action pid act s = exec_cmds (cmds act) (s\<lparr>trace := trace s @ [(pid, act)]\<rparr>)"

section \<open>The engine: \<^verbatim>\<open>loop\<close>\<close>

subsection \<open>Parallel mode\<close>

text \<open>First pass: set up the wait of every task whose \<open>executeAt\<close> is still 0.\<close>

definition activate :: "u32 \<Rightarrow> (nat \<Rightarrow> bool) \<Rightarrow> Task \<Rightarrow> Task" where
  "activate now pv t =
     (if executeAt t = 0
      then (if indefinite t
            then (if conditionTrue pv t
                  then setExecutionTime (now + postConditionDelay t) (t\<lparr>conditionMet := True\<rparr>)
                  else t)
            else setExecutionTime (now + conditionWait t) t)
      else t)"

text \<open>
  Second pass, per task: an empty predicate is replaced by the always-true one (with an
  error message); then the task either becomes \<open>conditionMet\<close> (\<open>meetCondition\<close>), or
  times out (\<open>expired\<close>, into \<open>removePIDs\<close>), or is \<open>due\<close> (into \<open>execPIDs\<close>), or waits.
  The sequential mode applies the same tests to its copy of the head task.
\<close>

definition repairCondition :: "Task \<Rightarrow> Task" where
  "repairCondition t = (if condition t = None then t\<lparr>condition := Some AlwaysTrue\<rparr> else t)"

definition becomesTrue :: "(nat \<Rightarrow> bool) \<Rightarrow> Task \<Rightarrow> bool" where
  "becomesTrue pv t = (\<not> conditionMet t \<and> conditionTrue pv t)"

definition meetCondition :: "u32 \<Rightarrow> (nat \<Rightarrow> bool) \<Rightarrow> Task \<Rightarrow> Task" where
  "meetCondition now pv t =
     (if becomesTrue pv t
      then setExecutionTime (now + postConditionDelay t) (t\<lparr>conditionMet := True\<rparr>)
      else t)"

definition expired :: "u32 \<Rightarrow> (nat \<Rightarrow> bool) \<Rightarrow> Task \<Rightarrow> bool" where
  "expired now pv t =
     (\<not> conditionMet t \<and> \<not> conditionTrue pv t \<and> \<not> indefinite t
      \<and> 0 \<le> sint (now - executeAt t))"

definition due :: "u32 \<Rightarrow> Task \<Rightarrow> bool" where
  "due now t = (conditionMet t \<and> 0 \<le> sint (now - executeAt t))"

definition classify :: "u32 \<Rightarrow> (nat \<Rightarrow> bool) \<Rightarrow> Task \<Rightarrow> Task" where
  "classify now pv t = meetCondition now pv (repairCondition t)"

definition timedOut :: "u32 \<Rightarrow> (nat \<Rightarrow> bool) \<Rightarrow> Task \<Rightarrow> bool" where
  "timedOut now pv t = expired now pv (repairCondition t)"

text \<open>
  The outcome of the two passes over the store: the tasks after the first pass, the
  tasks after both, \<open>execPIDs\<close>, \<open>removePIDs\<close>, and one error message per task without
  a predicate.
\<close>

definition activated :: "u32 \<Rightarrow> (nat \<Rightarrow> bool) \<Rightarrow> Task list \<Rightarrow> Task list" where
  "activated now pv ts = map (activate now pv) ts"

definition classified :: "u32 \<Rightarrow> (nat \<Rightarrow> bool) \<Rightarrow> Task list \<Rightarrow> Task list" where
  "classified now pv ts = map (classify now pv) (activated now pv ts)"

definition execPIDs :: "u32 \<Rightarrow> (nat \<Rightarrow> bool) \<Rightarrow> Task list \<Rightarrow> PID_t list" where
  "execPIDs now pv ts = map PID (filter (due now) (activated now pv ts))"

definition removePIDs :: "u32 \<Rightarrow> (nat \<Rightarrow> bool) \<Rightarrow> Task list \<Rightarrow> PID_t list" where
  "removePIDs now pv ts = map PID (filter (timedOut now pv) (activated now pv ts))"

definition conditionErrors :: "u32 \<Rightarrow> (nat \<Rightarrow> bool) \<Rightarrow> Task list \<Rightarrow> logmsg list" where
  "conditionErrors now pv ts =
     map (\<lambda>t. ErrNoCondition) (filter (\<lambda>t. condition t = None) (activated now pv ts))"

definition afterPasses :: "u32 \<Rightarrow> (nat \<Rightarrow> bool) \<Rightarrow> sched \<Rightarrow> sched" where
  "afterPasses now pv s =
     s\<lparr>tasks := classified now pv (tasks s),
       logged := logged s @ conditionErrors now pv (tasks s)\<rparr>"

text \<open>
  Reaction to \<^verbatim>\<open>stop()\<close> called by the action that just returned: every PID of the
  removal ledger that is still in the store loses its \<open>repeat\<close> flag and becomes the new
  \<open>execPIDs\<close>; the ledger is cleared.
\<close>

fun clearRepeat :: "PID_t \<Rightarrow> Task list \<Rightarrow> Task list" where
  "clearRepeat pid [] = []"
| "clearRepeat pid (t # ts) =
     (if PID t = pid then t\<lparr>repeat := False\<rparr> # ts else t # clearRepeat pid ts)"

definition stopInside :: "sched \<Rightarrow> PID_t list \<times> sched" where
  "stopInside s =
     (filter (\<lambda>p. findByPID p (tasks s) \<noteq> None) (tasksToRemove s),
      s\<lparr>will_stop := False,
        tasks := fold clearRepeat (tasksToRemove s) (tasks s),
        tasksToRemove := []\<rparr>)"

text \<open>
  The dispatch loop over \<open>execPIDs\<close>.  The result is \<open>None\<close> when an action does not
  return; otherwise the state and, when the loop was left through \<^verbatim>\<open>break\<close>, the
  \<open>execPIDs\<close> rebuilt by \<open>stopInside\<close>.
\<close>

fun dispatch :: "PID_t list \<Rightarrow> sched \<Rightarrow> (PID_t list option \<times> sched) option" where
  "dispatch [] s = Some (None, s)"
| "dispatch (epid # rest) s =
     (case getTaskActionByPID epid s of
        None \<Rightarrow> dispatch rest s
      | Some act \<Rightarrow>
          (case run_action epid act s of
             None \<Rightarrow> None
           | Some s' \<Rightarrow>
               if will_stop s'
               then Some (Some (fst (stopInside s')), snd (stopInside s'))
               else dispatch rest s'))"

text \<open>
  Remove or reschedule the tasks of \<open>execPIDs\<close>; a repeating task is put back into the
  fresh state, with its interval as the next delay.
\<close>

definition resetTask :: "Task \<Rightarrow> Task" where
  "resetTask t = t\<lparr>conditionMet := False, postConditionDelay := interval t, executeAt := 0\<rparr>"

fun reconcile :: "PID_t list \<Rightarrow> Task list \<Rightarrow> PID_t list \<Rightarrow> Task list \<times> PID_t list" where
  "reconcile [] ts rm = (ts, rm)"
| "reconcile (epid # rest) ts rm =
     (case findByPID epid ts of
        None \<Rightarrow> reconcile rest ts rm
      | Some t \<Rightarrow>
          if repeat t
          then reconcile rest (modifyTaskByPID (PID t) (resetTask t) ts) rm
          else reconcile rest ts (rm @ [PID t]))"

definition commitRemovals :: "PID_t list \<Rightarrow> Task list \<Rightarrow> Task list" where
  "commitRemovals rm ts = fold eraseByPID (remdups_adj (sort rm)) ts"

definition parallelLoop :: "u32 \<Rightarrow> (nat \<Rightarrow> bool) \<Rightarrow> sched \<Rightarrow> sched option" where
  "parallelLoop now pv s =
     (case dispatch (execPIDs now pv (tasks s)) (afterPasses now pv s) of
        None \<Rightarrow> None
      | Some (stopped, s') \<Rightarrow>
          (case reconcile (case stopped of None \<Rightarrow> execPIDs now pv (tasks s) | Some ps \<Rightarrow> ps)
                  (tasks s') (removePIDs now pv (tasks s)) of
             (ts', rm) \<Rightarrow> Some (s'\<lparr>tasks := commitRemovals rm ts'\<rparr>)))"

subsection \<open>Sequential mode\<close>

text \<open>The local copy of the head task after activation and classification.\<close>

definition seqActivate :: "u32 \<Rightarrow> Task \<Rightarrow> Task" where
  "seqActivate baseTime t0 =
     (if executeAt t0 = 0
      then (let t = repairCondition t0
            in if \<not> indefinite t then setExecutionTime (baseTime + conditionWait t) t else t)
      else t0)"

definition seqActivateChanged :: "Task \<Rightarrow> bool" where
  "seqActivateChanged t0 =
     (executeAt t0 = 0 \<and> (condition t0 = None \<or> \<not> indefinite t0))"

definition sequentialLoop :: "u32 \<Rightarrow> (nat \<Rightarrow> bool) \<Rightarrow> sched \<Rightarrow> sched option" where
  "sequentialLoop now pv s =
     (case tasks s of
        [] \<Rightarrow> Some s
      | t0 # rest \<Rightarrow>
          (let t = seqActivate (lastSequentialFinishTime s) t0;
               removeThisTask = expired now pv t;
               executeThisTask = due now t;
               taskChanged = (seqActivateChanged t0 \<or> becomesTrue pv t);
               t' = meetCondition now pv t
           in if removeThisTask
              then Some (s\<lparr>tasks := eraseByPID (PID t') (tasks s),
                           lastSequentialFinishTime := now\<rparr>)
              else if executeThisTask
              then (case run_action (PID t') (onExecute t') s of
                      None \<Rightarrow> None
                    | Some s' \<Rightarrow>
                        if will_stop s'
                        then Some (s'\<lparr>will_stop := False,
                                      tasks := fold eraseByPID (tasksToRemove s') (tasks s'),
                                      tasksToRemove := [],
                                      lastSequentialFinishTime := now\<rparr>)
                        else Some (s'\<lparr>tasks := eraseByPID (PID t') (tasks s'),
                                      lastSequentialFinishTime := now\<rparr>))
              else if taskChanged
              then Some (s\<lparr>tasks := modifyTaskByPID (PID t') t' (tasks s)\<rparr>)
              else Some s))"

subsection \<open>\<^verbatim>\<open>loop\<close>\<close>

text \<open>
  Guarded entry; \<open>enterLoop\<close> drains a non-empty removal ledger and sets \<open>inLoop\<close> (the
  scoped flag), which is cleared on every way out of the body.
\<close>

definition enterLoop :: "sched \<Rightarrow> sched" where
  "enterLoop s =
     (if tasksToRemove s \<noteq> [] then clearMarkedForRemoval s else s)\<lparr>inLoop := True\<rparr>"

definition loop :: "u32 \<Rightarrow> (nat \<Rightarrow> bool) \<Rightarrow> sched \<Rightarrow> sched option" where
  "loop now pv s =
     (if tasks s = [] \<or> onHold s then Some s
      else if will_stop s then Some (clearMarkedForRemoval (s\<lparr>will_stop := False\<rparr>))
      else map_option (\<lambda>r. r\<lparr>inLoop := False\<rparr>)
             (if \<not> sequentialMode (enterLoop s) then parallelLoop now pv (enterLoop s)
              else sequentialLoop now pv (enterLoop s)))"

section \<open>Call sequences of the driver\<close>

datatype op = Call cmd | Loop u32 "nat \<Rightarrow> bool"

definition step :: "op \<Rightarrow> sched \<Rightarrow> sched option" where
  "step x s = (case x of Call c \<Rightarrow> exec_cmd c s | Loop now pv \<Rightarrow> loop now pv s)"

fun run :: "op list \<Rightarrow> sched \<Rightarrow> sched option" where
  "run [] s = Some s"
| "run (x # xs) s = (case step x s of None \<Rightarrow> None | Some s' \<Rightarrow> run xs s')"

section \<open>Well-formed stores\<close>

text \<open>The store invariant: pairwise distinct, nonzero PIDs and at most 124 tasks.\<close>

definition pids_ok :: "Task list \<Rightarrow> bool" where
  "pids_ok ts = (distinct (map PID ts) \<and> 0 \<notin> PID ` set ts \<and> length ts \<le> MAX_TASKS)"

definition store_ok :: "sched \<Rightarrow> bool" where
  "store_ok s = pids_ok (tasks s)"

text \<open>
  The footprint of a call of the add family: the store is unchanged (at capacity) or
  has grown by one task with a fresh nonzero PID; apart from the PID counter and the
  logger nothing else changes.
\<close>

definition added :: "sched \<Rightarrow> sched \<Rightarrow> bool" where
  "added s s' \<longleftrightarrow>
     sequentialMode s' = sequentialMode s
     \<and> lastSequentialFinishTime s' = lastSequentialFinishTime s
     \<and> will_stop s' = will_stop s
     \<and> tasksToRemove s' = tasksToRemove s
     \<and> onHold s' = onHold s
     \<and> inLoop s' = inLoop s
     \<and> trace s' = trace s
     \<and> ((tasks s' = tasks s \<and> MAX_TASKS \<le> length (tasks s))
          \<or> (\<exists>t. tasks s' = tasks s @ [t] \<and> PID t \<noteq> 0 \<and> PID t \<notin> PID ` set (tasks s)
                 \<and> length (tasks s) < MAX_TASKS))"

text \<open>A task as the add family stores it: not activated, condition not met.\<close>

definition freshTask ::
  "PID_t \<Rightarrow> action \<Rightarrow> bool \<Rightarrow> u32 \<Rightarrow> cond option \<Rightarrow> u32 \<Rightarrow> u32 \<Rightarrow> Task" where
  "freshTask p a r iv c w d =
     \<lparr> PID = p, onExecute = a, onTimeout = None, repeat = r, interval = iv, condition = c,
       conditionMet = False, conditionWait = w, postConditionDelay = d, executeAt = 0 \<rparr>"

text \<open>Classes of calls an action (or the driver) can make.\<close>

fun is_add :: "cmd \<Rightarrow> bool" where
  "is_add (AddTimedTask a d r i) = True"
| "is_add (AddConditionalTask a c w) = True"
| "is_add (AddConditionalTimedTask a c d w) = True"
| "is_add c = False"

fun keeps_ledger :: "cmd \<Rightarrow> bool" where
  "keeps_ledger Stop = False"
| "keeps_ledger (RemoveTask p) = False"
| "keeps_ledger c = True"

text \<open>An action that makes no call of the add family.\<close>

definition no_adds :: "action \<Rightarrow> bool" where
  "no_adds a = list_all (\<lambda>c. \<not> is_add c) (cmds a)"

text \<open>
  The footprint of any call made from inside \<open>loop\<close>: tasks are only appended, the
  ledger only grows, by PIDs that are in the store.
\<close>

definition ledger_ok :: "sched \<Rightarrow> bool" where
  "ledger_ok s = (set (tasksToRemove s) \<subseteq> PID ` set (tasks s))"

definition extends :: "sched \<Rightarrow> sched \<Rightarrow> bool" where
  "extends s s' \<longleftrightarrow>
     (\<exists>new. tasks s' = tasks s @ new)
     \<and> (pids_ok (tasks s) \<longrightarrow> pids_ok (tasks s'))
     \<and> (\<exists>l. tasksToRemove s' = tasksToRemove s @ l \<and> set l \<subseteq> PID ` set (tasks s'))
     \<and> inLoop s' = inLoop s"

section \<open>Observations\<close>

text \<open>The valuation in which every user predicate is false.\<close>

definition never :: "nat \<Rightarrow> bool" where
  "never n = False"

text \<open>The PIDs whose actions were invoked so far, and the PIDs in the store.\<close>

definition fired :: "sched \<Rightarrow> PID_t list" where
  "fired s = map fst (trace s)"

definition pids :: "sched \<Rightarrow> PID_t list" where
  "pids s = map PID (tasks s)"

definition deadlines :: "sched \<Rightarrow> (PID_t \<times> u32) list" where
  "deadlines s = map (\<lambda>t. (PID t, executeAt t)) (tasks s)"

text \<open>What the sequential scenarios observe: fired PIDs, finish time, deadlines.\<close>

definition seqView :: "sched \<Rightarrow> PID_t list \<times> u32 \<times> (PID_t \<times> u32) list" where
  "seqView s = (fired s, lastSequentialFinishTime s, deadlines s)"

section \<open>Example inputs\<close>

text \<open>
  A conditional task waiting at most 300 ms for user predicate 0, a timed task with a
  delay of 100 ms, and one-task schedulers holding them.
\<close>

definition condTask :: Task where
  "condTask = freshTask 1 (Action 0 []) False 0 (Some (Pred 0)) 300 0"

definition timedTask :: Task where
  "timedTask = freshTask 1 (Action 0 []) False 0 (Some AlwaysTrue) 0 100"

definition holding :: "Task \<Rightarrow> sched" where
  "holding t = init\<lparr>tasks := [t], nextPID := 2\<rparr>"

definition holdingSeq :: "Task \<Rightarrow> sched" where
  "holdingSeq t = init\<lparr>tasks := [t], nextPID := 2, sequentialMode := True,
                       lastSequentialFinishTime := 1000\<rparr>"

text \<open>
  An action that adds a task, calls \<open>stop\<close> and adds another task; and a scheduler with
  two tasks that are due from time 500 on, the first of which runs that action.
\<close>

definition stopAct :: action where
  "stopAct = Action 0 [AddTimedTask (Action 1 []) 10 False 0, Stop,
                       AddTimedTask (Action 2 []) 10 False 0]"

definition readyTask :: "PID_t \<Rightarrow> action \<Rightarrow> Task" where
  "readyTask p a = (freshTask p a False 0 (Some AlwaysTrue) 0 0)\<lparr>conditionMet := True, executeAt := 500\<rparr>"

definition twoReady :: "bool \<Rightarrow> sched" where
  "twoReady seq = init\<lparr>tasks := [readyTask 1 stopAct, readyTask 2 (Action 3 [])], nextPID := 3,
                       sequentialMode := seq\<rparr>"

text \<open>
  The action \<^verbatim>\<open>{ addTimedTask(B, 10); stop(); }\<close> and its mirror image
  \<^verbatim>\<open>{ stop(); addTimedTask(B, 10); }\<close>; the action of B has label 1 and calls nothing.
\<close>

definition addThenStop :: action where
  "addThenStop = Action 0 [AddTimedTask (Action 1 []) 10 False 0, Stop]"

definition stopThenAdd :: action where
  "stopThenAdd = Action 0 [Stop, AddTimedTask (Action 1 []) 10 False 0]"

text \<open>
  A scheduler on hold with two timed tasks and a removal of task 1 pending, with or
  without a stop pending as well.
\<close>

definition heldRemoval :: "bool \<Rightarrow> sched" where
  "heldRemoval ws = init\<lparr>tasks := [timedTask, timedTask\<lparr>PID := 2\<rparr>], nextPID := 3,
                         onHold := True, tasksToRemove := [1], will_stop := ws\<rparr>"

section \<open>Lemmas\<close>

lemma nextCandidate_nonzero: "nextCandidate n \<noteq> 0"
  by (simp add: nextCandidate_def)

lemma funpow_nextCandidate_nonzero: "n \<noteq> 0 \<Longrightarrow> (nextCandidate ^^ k) n \<noteq> 0"
  by (cases k) (simp_all add: nextCandidate_nonzero)

lemma findFreePID_free: "\<not> list_ex (\<lambda>t. PID t = n) ts \<Longrightarrow> findFreePID ts n = Some n"
  by (subst findFreePID.simps) simp

lemma findFreePID_taken:
  "list_ex (\<lambda>t. PID t = n) ts \<Longrightarrow> findFreePID ts n = findFreePID ts (nextCandidate n)"
  by (subst findFreePID.simps) simp

lemma findFreePID_orbit:
  "(nextCandidate ^^ k) n \<notin> PID ` set ts \<Longrightarrow>
   \<exists>j\<le>k. findFreePID ts n = Some ((nextCandidate ^^ j) n) \<and> (nextCandidate ^^ j) n \<notin> PID ` set ts"
proof (induction k arbitrary: n)
  case 0
  then have "\<not> list_ex (\<lambda>t. PID t = n) ts" by (auto simp: list_ex_iff)
  then show ?case using 0 by (simp add: findFreePID_free)
next
  case (Suc k)
  show ?case
  proof (cases "list_ex (\<lambda>t. PID t = n) ts")
    case False
    then have "findFreePID ts n = Some n" "n \<notin> PID ` set ts"
      by (auto simp: findFreePID_free list_ex_iff)
    then show ?thesis by (intro exI[of _ 0]) simp
  next
    case True
    from Suc.prems have "(nextCandidate ^^ k) (nextCandidate n) \<notin> PID ` set ts"
      by (simp add: funpow_swap1)
    from Suc.IH[OF this] obtain j where j: "j \<le> k"
      "findFreePID ts (nextCandidate n) = Some ((nextCandidate ^^ j) (nextCandidate n))"
      "(nextCandidate ^^ j) (nextCandidate n) \<notin> PID ` set ts" by blast
    then show ?thesis using True
      by (intro exI[of _ "Suc j"]) (simp add: findFreePID_taken funpow_swap1)
  qed
qed

lemma unat_nextCandidate:
  "n \<noteq> 0 \<Longrightarrow> unat (nextCandidate n) = unat n mod 65535 + 1"
proof -
  assume n: "n \<noteq> 0"
  have b: "unat n < 65536" using unsigned_less[of n, where ?'a=nat] by simp
  have p: "0 < unat n" using n by (simp add: unat_gt_0)
  show ?thesis
  proof (cases "n + 1 = 0")
    case True
    then have "n = -1" by (simp add: add_eq_0_iff2)
    then have "n = 65535" by simp
    then show ?thesis by (simp add: nextCandidate_def)
  next
    case False
    then have "unat (n + 1) = unat n + 1"
      by (metis add.commute unatSuc Suc_eq_plus1)
    moreover have "unat n \<noteq> 65535"
    proof
      assume "unat n = 65535"
      then have "n = 65535" by (simp add: word_unat_eq_iff)
      then show False using False by simp
    qed
    ultimately show ?thesis using False b by (simp add: nextCandidate_def)
  qed
qed

lemma unat_funpow_nextCandidate:
  "n \<noteq> 0 \<Longrightarrow> unat ((nextCandidate ^^ k) n) = (unat n - 1 + k) mod 65535 + 1"
proof (induction k)
  case 0
  have "unat n < 65536" using unsigned_less[of n, where ?'a=nat] by simp
  moreover have "0 < unat n" using 0 by (simp add: unat_gt_0)
  ultimately show ?case by simp
next
  case (Suc k)
  have nz: "(nextCandidate ^^ k) n \<noteq> 0" using Suc.prems by (rule funpow_nextCandidate_nonzero)
  have "unat ((nextCandidate ^^ Suc k) n) = unat ((nextCandidate ^^ k) n) mod 65535 + 1"
    using unat_nextCandidate[OF nz] by simp
  also have "\<dots> = ((unat n - 1 + k) mod 65535 + 1) mod 65535 + 1"
    using Suc.IH[OF Suc.prems] by simp
  also have "\<dots> = (unat n - 1 + Suc k) mod 65535 + 1"
    by (simp add: mod_Suc_eq)
  finally show ?case .
qed

lemma nextCandidate_reaches:
  assumes "n \<noteq> 0" "f \<noteq> 0"
  shows "\<exists>k. (nextCandidate ^^ k) n = f"
proof -
  have bn: "unat n < 65536" "0 < unat n" using unsigned_less[of n, where ?'a=nat] assms by (simp_all add: unat_gt_0)
  have bf: "unat f < 65536" "0 < unat f" using unsigned_less[of f, where ?'a=nat] assms by (simp_all add: unat_gt_0)
  define k where "k = unat f - 1 + (65535 - (unat n - 1))"
  have "unat n - 1 + k = (unat f - 1) + 65535" using bn bf by (simp add: k_def)
  then have "unat n - 1 + k = (unat f - 1) + 1 * 65535" by simp
  then have "(unat n - 1 + k) mod 65535 = (unat f - 1) mod 65535"
    by (simp only: mod_mult_self1)
  then have "(unat n - 1 + k) mod 65535 = unat f - 1" using bf by simp
  then have "unat ((nextCandidate ^^ k) n) = unat f"
    using unat_funpow_nextCandidate[OF assms(1), of k] bf by simp
  then show ?thesis by (auto simp: word_unat_eq_iff)
qed

lemma free_PID_exists:
  assumes "length ts < 65535"
  shows "\<exists>f. f \<noteq> 0 \<and> f \<notin> PID ` set ts"
proof -
  have "card (insert 0 (PID ` set ts)) \<le> Suc (card (PID ` set ts))"
    by (simp add: card_insert_if)
  also have "\<dots> \<le> Suc (length ts)"
    using card_image_le[of "set ts" PID] card_length[of ts] by simp
  also have "\<dots> < card (UNIV :: PID_t set)" using assms by (simp add: card_word)
  finally have "insert 0 (PID ` set ts) \<noteq> UNIV" by auto
  then show ?thesis by auto
qed

lemma findFreePID_total:
  assumes "length ts < 65535" "n \<noteq> 0"
  shows "\<exists>m. findFreePID ts n = Some m \<and> m \<noteq> 0 \<and> m \<notin> PID ` set ts"
proof -
  obtain f where f: "f \<noteq> 0" "f \<notin> PID ` set ts" using free_PID_exists[OF assms(1)] by blast
  obtain k where "(nextCandidate ^^ k) n = f" using nextCandidate_reaches[OF assms(2) f(1)] by blast
  then have "(nextCandidate ^^ k) n \<notin> PID ` set ts" using f by simp
  from findFreePID_orbit[OF this] show ?thesis
    using funpow_nextCandidate_nonzero[OF assms(2)] by blast
qed

lemma findFreePID_sound:
  assumes "findFreePID ts n = Some m"
  shows "m \<notin> PID ` set ts \<and> (n \<noteq> 0 \<longrightarrow> m \<noteq> 0)"
proof (rule findFreePID.raw_induct
    [where P = "\<lambda>ts n m. m \<notin> PID ` set ts \<and> (n \<noteq> 0 \<longrightarrow> m \<noteq> 0)", OF _ assms])
  fix f :: "Task list \<Rightarrow> PID_t \<Rightarrow> PID_t option" and ts n m
  assume IH: "\<And>ts n m. f ts n = Some m \<Longrightarrow> m \<notin> PID ` set ts \<and> (n \<noteq> 0 \<longrightarrow> m \<noteq> 0)"
    and eq: "(if list_ex (\<lambda>t. PID t = n) ts then f ts (nextCandidate n) else Some n) = Some m"
  show "m \<notin> PID ` set ts \<and> (n \<noteq> 0 \<longrightarrow> m \<noteq> 0)"
  proof (cases "list_ex (\<lambda>t. PID t = n) ts")
    case True
    then have "f ts (nextCandidate n) = Some m" using eq by simp
    from IH[OF this] show ?thesis using nextCandidate_nonzero by blast
  next
    case False
    then show ?thesis using eq by (auto simp: list_ex_iff)
  qed
qed

subsection \<open>Stores as lists\<close>

lemma PID_setExecutionTime [simp]: "PID (setExecutionTime x t) = PID t"
  by (simp add: setExecutionTime_def)

lemma PID_repairCondition [simp]: "PID (repairCondition t) = PID t"
  by (simp add: repairCondition_def)

lemma PID_activate [simp]: "PID (activate now pv t) = PID t"
  by (simp add: activate_def)

lemma PID_meetCondition [simp]: "PID (meetCondition now pv t) = PID t"
  by (simp add: meetCondition_def)

lemma PID_classify [simp]: "PID (classify now pv t) = PID t"
  by (simp add: classify_def)

lemma PID_seqActivate [simp]: "PID (seqActivate b t) = PID t"
  by (simp add: seqActivate_def Let_def)

lemma findByPID_None: "findByPID p ts = None \<longleftrightarrow> p \<notin> PID ` set ts"
  by (auto simp: findByPID_def find_None_iff)

lemma findByPID_Some: "findByPID p ts = Some t \<Longrightarrow> t \<in> set ts \<and> PID t = p"
  by (auto simp: findByPID_def find_Some_iff)

lemma findByPID_distinct:
  "distinct (map PID ts) \<Longrightarrow> t \<in> set ts \<Longrightarrow> findByPID (PID t) ts = Some t"
  by (induction ts) (auto simp: findByPID_def)

lemma distinct_PID_Cons: "distinct (map PID (t # ts)) \<Longrightarrow> \<forall>x\<in>set ts. PID x \<noteq> PID t"
  by (metis distinct.simps(2) imageI list.simps(9) set_map)

lemma map_PID_eraseByPID: "map PID (eraseByPID p ts) = remove1 p (map PID ts)"
  by (induction ts) auto

lemma eraseByPID_filter:
  "distinct (map PID ts) \<Longrightarrow> eraseByPID p ts = filter (\<lambda>t. PID t \<noteq> p) ts"
proof (induction ts)
  case Nil
  then show ?case by simp
next
  case (Cons t ts)
  have "\<forall>x\<in>set ts. PID x \<noteq> PID t"
    using Cons.prems by (rule distinct_PID_Cons)
  then have "PID t = p \<Longrightarrow> filter (\<lambda>t. PID t \<noteq> p) ts = ts"
    by (intro filter_True) simp
  then show ?case using Cons by simp
qed

lemma fold_eraseByPID_filter:
  "distinct (map PID ts) \<Longrightarrow> fold eraseByPID ps ts = filter (\<lambda>t. PID t \<notin> set ps) ts"
proof (induction ps arbitrary: ts)
  case Nil
  then show ?case by simp
next
  case (Cons p ps)
  have d: "distinct (map PID (filter (\<lambda>t. PID t \<noteq> p) ts))"
    using Cons.prems by (simp add: distinct_map_filter)
  show ?case
    using Cons.IH[OF d] Cons.prems by (simp add: eraseByPID_filter conj_commute)
qed

lemma map_PID_modifyTaskByPID:
  "PID new = p \<Longrightarrow> map PID (modifyTaskByPID p new ts) = map PID ts"
  by (induction ts) auto

lemma map_PID_clearRepeat [simp]: "map PID (clearRepeat p ts) = map PID ts"
  by (induction ts) auto

lemma map_PID_fold_clearRepeat [simp]: "map PID (fold clearRepeat ps ts) = map PID ts"
  by (induction ps arbitrary: ts) auto

lemma map_PID_setIntervalIn [simp]: "map PID (snd (setIntervalIn p iv ts)) = map PID ts"
  by (induction ts) auto

lemma pids_ok_cong: "map PID ts' = map PID ts \<Longrightarrow> pids_ok ts' = pids_ok ts"
proof -
  assume e: "map PID ts' = map PID ts"
  then have "PID ` set ts' = PID ` set ts" by (metis set_map)
  moreover have "length ts' = length ts" using e by (metis length_map)
  ultimately show ?thesis using e by (simp add: pids_ok_def)
qed

lemma pids_ok_filter: "pids_ok ts \<Longrightarrow> pids_ok (filter P ts)"
  using le_trans[OF length_filter_le[of P ts]]
  by (auto simp: pids_ok_def distinct_map_filter)

lemma pids_ok_eraseByPID: "pids_ok ts \<Longrightarrow> pids_ok (eraseByPID p ts)"
  by (simp add: eraseByPID_filter pids_ok_filter pids_ok_def[of ts])

lemma pids_ok_fold_eraseByPID: "pids_ok ts \<Longrightarrow> pids_ok (fold eraseByPID ps ts)"
  by (simp add: fold_eraseByPID_filter pids_ok_filter pids_ok_def[of ts])

lemma pids_ok_append1:
  "pids_ok ts \<Longrightarrow> length ts < MAX_TASKS \<Longrightarrow> p \<noteq> 0 \<Longrightarrow> p \<notin> PID ` set ts
   \<Longrightarrow> pids_ok (ts @ [t\<lparr>PID := p\<rparr>])"
  by (auto simp: pids_ok_def)

subsection \<open>The allocator and the add family\<close>

lemma getAndIncrementPID_total:
  assumes "length (tasks s) < 65535"
  shows "\<exists>p. getAndIncrementPID s = Some (p, s\<lparr>nextPID := p + 1\<rparr>) \<and> p \<noteq> 0 \<and> p \<notin> PID ` set (tasks s)"
proof -
  have "(if nextPID s = 0 then 1 else nextPID s) \<noteq> 0" by simp
  from findFreePID_total[OF assms this] show ?thesis
    by (auto simp: getAndIncrementPID_def)
qed

lemma getAndIncrementPID_sound:
  assumes "getAndIncrementPID s = Some (p, s')"
  shows "p \<noteq> 0 \<and> p \<notin> PID ` set (tasks s) \<and> s' = s\<lparr>nextPID := p + 1\<rparr>"
proof -
  from assms obtain m where m: "findFreePID (tasks s) (if nextPID s = 0 then 1 else nextPID s) = Some m"
    and "p = m" "s' = s\<lparr>nextPID := m + 1\<rparr>"
    by (auto simp: getAndIncrementPID_def split: option.splits)
  moreover have "(if nextPID s = 0 then 1 else nextPID s) \<noteq> 0" by simp
  ultimately show ?thesis using findFreePID_sound[OF m] by simp
qed

lemma pushTask_total:
  assumes "length (tasks s) < MAX_TASKS"
  shows "\<exists>p. pushTask t s = Some (p, s\<lparr>nextPID := p + 1, tasks := tasks s @ [t\<lparr>PID := p\<rparr>]\<rparr>)
             \<and> p \<noteq> 0 \<and> p \<notin> PID ` set (tasks s)"
proof -
  have "length (tasks s) < 65535" using assms by (simp add: MAX_TASKS_def)
  from getAndIncrementPID_total[OF this] show ?thesis
    by (auto simp: pushTask_def)
qed

lemma pushTask_added:
  assumes "length (tasks s) < MAX_TASKS"
  shows "\<exists>p s'. pushTask t s = Some (p, s') \<and> added s s' \<and> logged s' = logged s"
  using pushTask_total[OF assms, of t] assms by (auto simp: added_def)

lemma added_logged: "added (s\<lparr>logged := l\<rparr>) s' = added s s'"
  by (simp add: added_def)

lemma added_refl_full: "MAX_TASKS \<le> length (tasks s) \<Longrightarrow> added s (s\<lparr>logged := l\<rparr>)"
  by (simp add: added_def)

lemma addTimedTask_added: "\<exists>p s'. addTimedTask a d r i s = Some (p, s') \<and> added s s'"
proof (cases "MAX_TASKS \<le> length (tasks s)")
  case True
  then show ?thesis
    by (auto simp: addTimedTask_def taskCount_def added_def Let_def)
next
  case False
  define s1 where "s1 = (if sequentialMode s \<and> r then s\<lparr>logged := logged s @ [WarnRepeatSequential]\<rparr> else s)"
  have l: "length (tasks s1) < MAX_TASKS" using False by (auto simp: s1_def)
  have a: "added s s' = added s1 s'" for s' by (simp add: s1_def added_logged)
  show ?thesis
    using pushTask_added[OF l] l
    by (simp add: addTimedTask_def taskCount_def Let_def a flip: s1_def) blast
qed

lemma addConditionalTask_added: "\<exists>p s'. addConditionalTask a c w s = Some (p, s') \<and> added s s'"
proof (cases "MAX_TASKS \<le> length (tasks s)")
  case True
  then show ?thesis
    by (auto simp: addConditionalTask_def taskCount_def added_def)
next
  case False
  then have l: "length (tasks s) < MAX_TASKS" by simp
  show ?thesis
    using pushTask_added[OF l] l
    by (simp add: addConditionalTask_def taskCount_def) blast
qed

lemma addConditionalTimedTask_added:
  "\<exists>p s'. addConditionalTimedTask a c d w s = Some (p, s') \<and> added s s'"
proof (cases "MAX_TASKS \<le> length (tasks s)")
  case True
  then show ?thesis
    by (auto simp: addConditionalTimedTask_def taskCount_def added_def)
next
  case False
  then have l: "length (tasks s) < MAX_TASKS" by simp
  show ?thesis
    using pushTask_added[OF l] l
    by (simp add: addConditionalTimedTask_def taskCount_def) blast
qed

lemma added_pids_ok: "added s s' \<Longrightarrow> pids_ok (tasks s) \<Longrightarrow> pids_ok (tasks s')"
  by (auto simp: added_def pids_ok_def)

subsection \<open>Commands\<close>

lemma tasks_removeTask [simp]: "tasks (snd (removeTask p s)) = tasks s"
  by (simp add: removeTask_def split: option.splits)

lemma map_PID_setRepeatingTaskInterval [simp]:
  "map PID (tasks (snd (setRepeatingTaskInterval p iv s))) = map PID (tasks s)"
  by (simp add: setRepeatingTaskInterval_def)

lemma exec_cmd_total: "\<exists>s'. exec_cmd c s = Some s'"
proof (cases c)
  case (AddTimedTask a d r i)
  then show ?thesis using addTimedTask_added[of a d r i s] by (auto simp: exec_cmd_def)
next
  case (AddConditionalTask a p w)
  then show ?thesis using addConditionalTask_added[of a p w s] by (auto simp: exec_cmd_def)
next
  case (AddConditionalTimedTask a p d w)
  then show ?thesis using addConditionalTimedTask_added[of a p d w s] by (auto simp: exec_cmd_def)
qed (simp_all add: exec_cmd_def)

lemma exec_cmd_store_ok:
  assumes "exec_cmd c s = Some s'" "store_ok s"
  shows "store_ok s'"
proof (cases c)
  case (AddTimedTask a d r i)
  then show ?thesis using addTimedTask_added[of a d r i s] assms
    by (auto simp: exec_cmd_def store_ok_def dest: added_pids_ok)
next
  case (AddConditionalTask a p w)
  then show ?thesis using addConditionalTask_added[of a p w s] assms
    by (auto simp: exec_cmd_def store_ok_def dest: added_pids_ok)
next
  case (AddConditionalTimedTask a p d w)
  then show ?thesis using addConditionalTimedTask_added[of a p d w s] assms
    by (auto simp: exec_cmd_def store_ok_def dest: added_pids_ok)
next
  case (SetRepeatingTaskInterval p iv)
  then show ?thesis using assms
    by (auto simp: exec_cmd_def store_ok_def pids_ok_cong[OF map_PID_setRepeatingTaskInterval])
next
  case (RemoveTask p)
  then show ?thesis using assms by (auto simp: exec_cmd_def store_ok_def)
qed (use assms in \<open>auto simp: exec_cmd_def store_ok_def setAndStartSequentialMode_def hold_def resume_def stop_def\<close>)

lemma exec_cmds_total: "\<exists>s'. exec_cmds cs s = Some s'"
proof (induction cs arbitrary: s)
  case Nil
  then show ?case by simp
next
  case (Cons c cs)
  obtain s1 where "exec_cmd c s = Some s1" using exec_cmd_total by blast
  then show ?case using Cons.IH[of s1] by simp
qed

lemma exec_cmds_store_ok: "exec_cmds cs s = Some s' \<Longrightarrow> store_ok s \<Longrightarrow> store_ok s'"
proof (induction cs arbitrary: s)
  case Nil
  then show ?case by simp
next
  case (Cons c cs)
  then show ?case by (auto split: option.splits dest: exec_cmd_store_ok)
qed

lemma run_action_total: "\<exists>s'. run_action p a s = Some s'"
  by (simp add: run_action_def exec_cmds_total)

lemma run_action_store_ok: "run_action p a s = Some s' \<Longrightarrow> store_ok s \<Longrightarrow> store_ok s'"
  unfolding run_action_def by (erule exec_cmds_store_ok) (simp add: store_ok_def)

subsection \<open>The parallel tick\<close>

lemma store_ok_stopInside: "store_ok s \<Longrightarrow> store_ok (snd (stopInside s))"
  by (simp add: stopInside_def store_ok_def pids_ok_cong[OF map_PID_fold_clearRepeat])

lemma dispatch_total: "\<exists>r. dispatch ps s = Some r"
proof (induction ps arbitrary: s)
  case Nil
  then show ?case by simp
next
  case (Cons p ps)
  show ?case
  proof (cases "getTaskActionByPID p s")
    case None
    then show ?thesis using Cons.IH[of s] by simp
  next
    case (Some a)
    obtain s1 where "run_action p a s = Some s1" using run_action_total by blast
    then show ?thesis using Some Cons.IH[of s1] by simp
  qed
qed

lemma dispatch_store_ok: "dispatch ps s = Some (r, s') \<Longrightarrow> store_ok s \<Longrightarrow> store_ok s'"
proof (induction ps arbitrary: s)
  case Nil
  then show ?case by simp
next
  case (Cons p ps)
  show ?case
  proof (cases "getTaskActionByPID p s")
    case None
    then show ?thesis using Cons by simp
  next
    case (Some a)
    obtain s1 where r: "run_action p a s = Some s1" using run_action_total by blast
    have ok1: "store_ok s1" using run_action_store_ok[OF r Cons.prems(2)] .
    show ?thesis
    proof (cases "will_stop s1")
      case True
      then have "s' = snd (stopInside s1)" using Cons.prems(1) Some r by simp
      then show ?thesis using ok1 by (simp add: store_ok_stopInside)
    next
      case False
      then have "dispatch ps s1 = Some (r, s')" using Cons.prems(1) Some r by simp
      then show ?thesis using Cons.IH ok1 by blast
    qed
  qed
qed

lemma map_PID_reconcile: "map PID (fst (reconcile ps ts rm)) = map PID ts"
proof (induction ps arbitrary: ts rm)
  case Nil
  then show ?case by simp
next
  case (Cons p ps)
  then show ?case by (simp add: map_PID_modifyTaskByPID resetTask_def split: option.splits)
qed

lemma pids_ok_commitRemovals: "pids_ok ts \<Longrightarrow> pids_ok (commitRemovals rm ts)"
  by (simp add: commitRemovals_def pids_ok_fold_eraseByPID)

lemma map_PID_classified [simp]: "map PID (classified now pv ts) = map PID ts"
  by (simp add: classified_def activated_def comp_def)

lemma store_ok_afterPasses: "store_ok (afterPasses now pv s) = store_ok s"
  by (simp add: afterPasses_def store_ok_def pids_ok_cong[OF map_PID_classified])

lemma parallelLoop_unfold:
  assumes "dispatch (execPIDs now pv (tasks s)) (afterPasses now pv s) = Some (st, s1)"
    "reconcile (case st of None \<Rightarrow> execPIDs now pv (tasks s) | Some ps \<Rightarrow> ps) (tasks s1)
       (removePIDs now pv (tasks s)) = (ts', rm')"
  shows "parallelLoop now pv s = Some (s1\<lparr>tasks := commitRemovals rm' ts'\<rparr>)"
  unfolding parallelLoop_def using assms by simp

lemma parallelLoop_total: "\<exists>s'. parallelLoop now pv s = Some s'"
proof -
  obtain st s1 where d: "dispatch (execPIDs now pv (tasks s)) (afterPasses now pv s) = Some (st, s1)"
    using dispatch_total by (metis surj_pair)
  obtain ts' rm' where r: "reconcile (case st of None \<Rightarrow> execPIDs now pv (tasks s) | Some ps \<Rightarrow> ps)
       (tasks s1) (removePIDs now pv (tasks s)) = (ts', rm')"
    by (metis surj_pair)
  show ?thesis using parallelLoop_unfold[OF d r] by simp
qed

lemma parallelLoop_store_ok:
  assumes "parallelLoop now pv s = Some s'" "store_ok s"
  shows "store_ok s'"
proof -
  have ok: "store_ok (afterPasses now pv s)" using assms(2) by (simp add: store_ok_afterPasses)
  obtain st s1 where d: "dispatch (execPIDs now pv (tasks s)) (afterPasses now pv s) = Some (st, s1)"
    using dispatch_total by (metis surj_pair)
  have ok1: "pids_ok (tasks s1)" using dispatch_store_ok[OF d ok] by (simp add: store_ok_def)
  obtain ts' rm' where r: "reconcile (case st of None \<Rightarrow> execPIDs now pv (tasks s) | Some ps \<Rightarrow> ps)
       (tasks s1) (removePIDs now pv (tasks s)) = (ts', rm')"
    by (metis surj_pair)
  have "map PID ts' = map PID (tasks s1)"
    using map_PID_reconcile[of "case st of None \<Rightarrow> execPIDs now pv (tasks s) | Some ps \<Rightarrow> ps"
        "tasks s1" "removePIDs now pv (tasks s)"] r by simp
  from pids_ok_cong[OF this] have "pids_ok ts'" using ok1 by simp
  then have "pids_ok (commitRemovals rm' ts')" by (rule pids_ok_commitRemovals)
  moreover have "s' = s1\<lparr>tasks := commitRemovals rm' ts'\<rparr>"
    using assms(1) parallelLoop_unfold[OF d r] by simp
  ultimately show ?thesis by (simp add: store_ok_def)
qed

subsection \<open>The sequential tick\<close>

text \<open>The sequential tick, branch by branch.\<close>

lemma expired_not_due: "expired now pv t \<Longrightarrow> \<not> due now t"
  by (simp add: expired_def due_def)

lemma due_meetCondition: "due now t \<Longrightarrow> meetCondition now pv t = t"
  by (simp add: due_def meetCondition_def becomesTrue_def)

lemma expired_meetCondition: "expired now pv t \<Longrightarrow> meetCondition now pv t = t"
  by (simp add: expired_def meetCondition_def becomesTrue_def)

lemma sequentialLoop_Nil: "tasks s = [] \<Longrightarrow> sequentialLoop now pv s = Some s"
  by (simp add: sequentialLoop_def)

lemma sequentialLoop_remove:
  assumes "tasks s = t0 # rest" "t = seqActivate (lastSequentialFinishTime s) t0"
    "expired now pv t"
  shows "sequentialLoop now pv s =
           Some (s\<lparr>tasks := eraseByPID (PID t0) (tasks s), lastSequentialFinishTime := now\<rparr>)"
  using assms by (simp add: sequentialLoop_def Let_def)

lemma sequentialLoop_execute:
  assumes "tasks s = t0 # rest" "t = seqActivate (lastSequentialFinishTime s) t0"
    "due now t"
  shows "sequentialLoop now pv s =
           (case run_action (PID t0) (onExecute t) s of
              None \<Rightarrow> None
            | Some s' \<Rightarrow>
                if will_stop s'
                then Some (s'\<lparr>will_stop := False,
                              tasks := fold eraseByPID (tasksToRemove s') (tasks s'),
                              tasksToRemove := [],
                              lastSequentialFinishTime := now\<rparr>)
                else Some (s'\<lparr>tasks := eraseByPID (PID t0) (tasks s'),
                              lastSequentialFinishTime := now\<rparr>))"
proof -
  have "\<not> expired now pv t" using assms(3) expired_not_due by blast
  then show ?thesis using assms
    by (simp add: sequentialLoop_def Let_def due_meetCondition split: option.splits)
qed

lemma sequentialLoop_wait:
  assumes "tasks s = t0 # rest" "t = seqActivate (lastSequentialFinishTime s) t0"
    "\<not> expired now pv t" "\<not> due now t"
  shows "sequentialLoop now pv s =
           (if seqActivateChanged t0 \<or> becomesTrue pv t
            then Some (s\<lparr>tasks := modifyTaskByPID (PID t0) (meetCondition now pv t) (tasks s)\<rparr>)
            else Some s)"
  using assms by (simp add: sequentialLoop_def Let_def)

lemma sequentialLoop_total: "\<exists>s'. sequentialLoop now pv s = Some s'"
proof (cases "tasks s")
  case Nil
  then show ?thesis by (simp add: sequentialLoop_def)
next
  case (Cons t0 rest)
  define t where "t = seqActivate (lastSequentialFinishTime s) t0"
  obtain s1 where r: "run_action (PID t0) (onExecute t) s = Some s1"
    using run_action_total by blast
  consider (rm) "expired now pv t" | (ex) "due now t" | (wait) "\<not> expired now pv t" "\<not> due now t"
    by blast
  then show ?thesis
  proof cases
    case rm
    then show ?thesis using sequentialLoop_remove[OF Cons t_def] by simp
  next
    case ex
    then show ?thesis using sequentialLoop_execute[OF Cons t_def] r by simp
  next
    case wait
    then show ?thesis using sequentialLoop_wait[OF Cons t_def] by simp
  qed
qed

lemma sequentialLoop_store_ok:
  assumes "sequentialLoop now pv s = Some s'" "store_ok s"
  shows "store_ok s'"
proof (cases "tasks s")
  case Nil
  then show ?thesis using assms by (simp add: sequentialLoop_def)
next
  case (Cons t0 rest)
  define t where "t = seqActivate (lastSequentialFinishTime s) t0"
  have pt: "PID (meetCondition now pv t) = PID t0" by (simp add: t_def)
  have m: "pids_ok (modifyTaskByPID (PID t0) (meetCondition now pv t) (tasks s))"
    using assms(2) pt by (simp add: store_ok_def pids_ok_cong[OF map_PID_modifyTaskByPID])
  consider (rm) "expired now pv t" | (ex) "due now t" | (wait) "\<not> expired now pv t" "\<not> due now t"
    by blast
  then show ?thesis
  proof cases
    case rm
    have "s' = s\<lparr>tasks := eraseByPID (PID t0) (tasks s), lastSequentialFinishTime := now\<rparr>"
      using sequentialLoop_remove[OF Cons t_def rm] assms(1) by simp
    then show ?thesis using assms(2) by (simp add: store_ok_def pids_ok_eraseByPID)
  next
    case ex
    obtain s1 where r: "run_action (PID t0) (onExecute t) s = Some s1"
      using run_action_total by blast
    have ok1: "pids_ok (tasks s1)" using run_action_store_ok[OF r assms(2)] by (simp add: store_ok_def)
    have "s' = s1\<lparr>will_stop := False, tasks := fold eraseByPID (tasksToRemove s1) (tasks s1),
                     tasksToRemove := [], lastSequentialFinishTime := now\<rparr>
          \<or> s' = s1\<lparr>tasks := eraseByPID (PID t0) (tasks s1), lastSequentialFinishTime := now\<rparr>"
      using sequentialLoop_execute[OF Cons t_def ex] assms(1) r by (simp split: if_splits)
    then show ?thesis using ok1
      by (auto simp: store_ok_def pids_ok_eraseByPID pids_ok_fold_eraseByPID)
  next
    case wait
    have "s' = s\<lparr>tasks := modifyTaskByPID (PID t0) (meetCondition now pv t) (tasks s)\<rparr> \<or> s' = s"
      using sequentialLoop_wait[OF Cons t_def wait] assms(1) by (simp split: if_splits)
    then show ?thesis using m assms(2) by (auto simp: store_ok_def)
  qed
qed

subsection \<open>\<open>loop\<close> and call sequences\<close>

lemma store_ok_clearMarkedForRemoval: "store_ok s \<Longrightarrow> store_ok (clearMarkedForRemoval s)"
  by (simp add: store_ok_def clearMarkedForRemoval_def pids_ok_fold_eraseByPID)

lemma store_ok_enterLoop: "store_ok s \<Longrightarrow> store_ok (enterLoop s)"
  using store_ok_clearMarkedForRemoval[of s]
  by (simp add: enterLoop_def store_ok_def)

lemma loop_total: "\<exists>s'. loop now pv s = Some s'"
  using parallelLoop_total sequentialLoop_total
  by (auto simp: loop_def)

lemma loop_store_ok:
  assumes "loop now pv s = Some s'" "store_ok s"
  shows "store_ok s'"
proof -
  have a: "store_ok (x\<lparr>inLoop := b\<rparr>) = store_ok x" for x b by (simp add: store_ok_def)
  have b: "store_ok (x\<lparr>will_stop := b\<rparr>) = store_ok x" for x b by (simp add: store_ok_def)
  have c: "store_ok (enterLoop s)" using assms(2) by (rule store_ok_enterLoop)
  show ?thesis
  proof (cases "tasks s = [] \<or> onHold s")
    case True
    then show ?thesis using assms by (simp add: loop_def)
  next
    case False
    note nh = this
    show ?thesis
    proof (cases "will_stop s")
      case True
      then have "s' = clearMarkedForRemoval (s\<lparr>will_stop := False\<rparr>)"
        using assms(1) nh by (simp add: loop_def)
      then show ?thesis using assms(2) by (simp add: store_ok_clearMarkedForRemoval b)
    next
      case False
      then obtain r where "s' = r\<lparr>inLoop := False\<rparr>"
        "parallelLoop now pv (enterLoop s) = Some r \<or> sequentialLoop now pv (enterLoop s) = Some r"
        using assms(1) nh by (auto simp: loop_def split: if_splits)
      then show ?thesis using c parallelLoop_store_ok sequentialLoop_store_ok by (auto simp: a)
    qed
  qed
qed

lemma step_total: "\<exists>s'. step x s = Some s'"
  by (cases x) (simp_all add: step_def exec_cmd_total loop_total)

lemma step_store_ok: "step x s = Some s' \<Longrightarrow> store_ok s \<Longrightarrow> store_ok s'"
  by (cases x) (auto simp: step_def dest: exec_cmd_store_ok loop_store_ok)

lemma run_total: "\<exists>s'. run xs s = Some s'"
proof (induction xs arbitrary: s)
  case Nil
  then show ?case by simp
next
  case (Cons x xs)
  obtain s1 where "step x s = Some s1" using step_total by blast
  then show ?case using Cons.IH[of s1] by simp
qed

lemma run_store_ok: "run xs s = Some s' \<Longrightarrow> store_ok s \<Longrightarrow> store_ok s'"
proof (induction xs arbitrary: s)
  case Nil
  then show ?case by simp
next
  case (Cons x xs)
  then show ?case by (auto split: option.splits dest: step_store_ok)
qed

lemma store_ok_init: "store_ok init"
  by (simp add: store_ok_def pids_ok_def init_def)

subsection \<open>Sequences of add calls\<close>

lemma is_add_added: "is_add c \<Longrightarrow> \<exists>s'. exec_cmd c s = Some s' \<and> added s s'"
proof (cases c)
  case (AddTimedTask a d r i)
  then show ?thesis using addTimedTask_added[of a d r i s] by (auto simp: exec_cmd_def)
next
  case (AddConditionalTask a p w)
  then show ?thesis using addConditionalTask_added[of a p w s] by (auto simp: exec_cmd_def)
next
  case (AddConditionalTimedTask a p d w)
  then show ?thesis using addConditionalTimedTask_added[of a p d w s] by (auto simp: exec_cmd_def)
qed simp_all

lemma adds_only:
  "list_all is_add cs \<Longrightarrow>
   \<exists>s' new. exec_cmds cs s = Some s' \<and> tasks s' = tasks s @ new
      \<and> (pids_ok (tasks s) \<longrightarrow> pids_ok (tasks s'))
      \<and> will_stop s' = will_stop s \<and> tasksToRemove s' = tasksToRemove s
      \<and> onHold s' = onHold s \<and> trace s' = trace s \<and> inLoop s' = inLoop s
      \<and> sequentialMode s' = sequentialMode s"
proof (induction cs arbitrary: s)
  case Nil
  then show ?case by simp
next
  case (Cons c cs)
  from Cons.prems have ic: "is_add c" and ics: "list_all is_add cs" by simp_all
  from is_add_added[OF ic, of s] obtain s1 where s1: "exec_cmd c s = Some s1" "added s s1" by blast
  from Cons.IH[OF ics, of s1] obtain s' new where s': "exec_cmds cs s1 = Some s'" "tasks s' = tasks s1 @ new"
    "pids_ok (tasks s1) \<longrightarrow> pids_ok (tasks s')"
    "will_stop s' = will_stop s1" "tasksToRemove s' = tasksToRemove s1"
    "onHold s' = onHold s1" "trace s' = trace s1" "inLoop s' = inLoop s1"
    "sequentialMode s' = sequentialMode s1"
    by blast
  obtain new1 where "tasks s1 = tasks s @ new1" using s1(2) by (auto simp: added_def)
  then have "tasks s' = tasks s @ (new1 @ new)" using s'(2) by simp
  moreover have "pids_ok (tasks s) \<longrightarrow> pids_ok (tasks s')" using s'(3) added_pids_ok[OF s1(2)] by blast
  ultimately show ?case using s1 s' by (auto simp: added_def)
qed

lemma filter_prefix_out:
  assumes "distinct (map PID (xs @ ys))" "set ps \<inter> PID ` set (xs @ ys) = PID ` set xs"
  shows "filter (\<lambda>t. PID t \<notin> set ps) (xs @ ys) = ys"
proof -
  have "\<forall>t\<in>set xs. PID t \<in> set ps" using assms(2) by auto
  then have a: "filter (\<lambda>t. PID t \<notin> set ps) xs = []" by (simp add: filter_empty_conv)
  have "\<forall>t\<in>set ys. PID t \<notin> set ps"
  proof
    fix t assume t: "t \<in> set ys"
    then have "PID t \<notin> PID ` set xs" using assms(1) by auto
    moreover have "PID t \<in> PID ` set (xs @ ys)" using t by simp
    ultimately show "PID t \<notin> set ps" using assms(2) by blast
  qed
  then have "filter (\<lambda>t. PID t \<notin> set ps) ys = ys" by (simp add: filter_id_conv)
  then show ?thesis using a by simp
qed

subsection \<open>Footprint of calls made inside the loop\<close>

lemma extends_refl: "extends s s"
  by (simp add: extends_def)

lemma extends_trans:
  assumes "extends s s1" "extends s1 s2"
  shows "extends s s2"
proof -
  obtain n1 l1 where a: "tasks s1 = tasks s @ n1" "tasksToRemove s1 = tasksToRemove s @ l1"
    "set l1 \<subseteq> PID ` set (tasks s1)"
    using assms(1) by (auto simp: extends_def)
  obtain n2 l2 where b: "tasks s2 = tasks s1 @ n2" "tasksToRemove s2 = tasksToRemove s1 @ l2"
    "set l2 \<subseteq> PID ` set (tasks s2)"
    using assms(2) by (auto simp: extends_def)
  have "tasks s2 = tasks s @ (n1 @ n2)" using a b by simp
  moreover have "tasksToRemove s2 = tasksToRemove s @ (l1 @ l2)" using a b by simp
  moreover have "set (l1 @ l2) \<subseteq> PID ` set (tasks s2)" using a(3) b(1,3) by auto
  ultimately show ?thesis using assms unfolding extends_def by blast
qed

lemma added_extends: "added s s' \<Longrightarrow> extends s s'"
  unfolding extends_def using added_pids_ok[of s s'] by (auto simp: added_def)

lemma extends_ledger_ok:
  assumes "extends s s'" "ledger_ok s"
  shows "ledger_ok s'"
proof -
  obtain new l where a: "tasks s' = tasks s @ new" "tasksToRemove s' = tasksToRemove s @ l"
    "set l \<subseteq> PID ` set (tasks s')"
    using assms(1) by (auto simp: extends_def)
  have "set (tasksToRemove s) \<subseteq> PID ` set (tasks s')"
    using assms(2) a(1) unfolding ledger_ok_def by (metis image_mono le_sup_iff set_append subset_trans sup_ge1)
  then show ?thesis using a unfolding ledger_ok_def by simp
qed

lemma exec_cmd_extends:
  assumes "exec_cmd c s = Some s'" "inLoop s"
  shows "extends s s'"
proof (cases c)
  case (AddTimedTask a d r i)
  then show ?thesis using addTimedTask_added[of a d r i s] assms
    by (auto simp: exec_cmd_def dest: added_extends)
next
  case (AddConditionalTask a p w)
  then show ?thesis using addConditionalTask_added[of a p w s] assms
    by (auto simp: exec_cmd_def dest: added_extends)
next
  case (AddConditionalTimedTask a p d w)
  then show ?thesis using addConditionalTimedTask_added[of a p d w s] assms
    by (auto simp: exec_cmd_def dest: added_extends)
next
  case (RemoveTask p)
  then show ?thesis using assms
    by (auto simp: exec_cmd_def removeTask_def extends_def findByPID_None
             dest: findByPID_Some split: option.splits)
next
  case (SetRepeatingTaskInterval p iv)
  then show ?thesis using assms
    by (auto simp: exec_cmd_def setRepeatingTaskInterval_def extends_def)
next
  case Stop
  then show ?thesis using assms by (auto simp: exec_cmd_def stop_def extends_def)
qed (use assms in \<open>auto simp: exec_cmd_def extends_def setAndStartSequentialMode_def hold_def resume_def\<close>)

lemma exec_cmd_trace: "exec_cmd c s = Some s' \<Longrightarrow> trace s' = trace s"
proof (cases c)
  case (AddTimedTask a d r i)
  assume "exec_cmd c s = Some s'"
  then show ?thesis using addTimedTask_added[of a d r i s] AddTimedTask
    by (auto simp: exec_cmd_def added_def)
next
  case (AddConditionalTask a p w)
  assume "exec_cmd c s = Some s'"
  then show ?thesis using addConditionalTask_added[of a p w s] AddConditionalTask
    by (auto simp: exec_cmd_def added_def)
next
  case (AddConditionalTimedTask a p d w)
  assume "exec_cmd c s = Some s'"
  then show ?thesis using addConditionalTimedTask_added[of a p d w s] AddConditionalTimedTask
    by (auto simp: exec_cmd_def added_def)
qed (auto simp: exec_cmd_def removeTask_def setRepeatingTaskInterval_def stop_def hold_def
          resume_def setAndStartSequentialMode_def split: option.splits if_splits)

lemma exec_cmd_will_stop: "exec_cmd c s = Some s' \<Longrightarrow> c \<noteq> Stop \<Longrightarrow> will_stop s' = will_stop s"
proof (cases c)
  case (AddTimedTask a d r i)
  assume "exec_cmd c s = Some s'"
  then show ?thesis using addTimedTask_added[of a d r i s] AddTimedTask
    by (auto simp: exec_cmd_def added_def)
next
  case (AddConditionalTask a p w)
  assume "exec_cmd c s = Some s'"
  then show ?thesis using addConditionalTask_added[of a p w s] AddConditionalTask
    by (auto simp: exec_cmd_def added_def)
next
  case (AddConditionalTimedTask a p d w)
  assume "exec_cmd c s = Some s'"
  then show ?thesis using addConditionalTimedTask_added[of a p d w s] AddConditionalTimedTask
    by (auto simp: exec_cmd_def added_def)
qed (auto simp: exec_cmd_def removeTask_def setRepeatingTaskInterval_def hold_def
          resume_def setAndStartSequentialMode_def split: option.splits if_splits)

lemma exec_cmd_keeps:
  "exec_cmd c s = Some s' \<Longrightarrow> keeps_ledger c \<Longrightarrow> tasksToRemove s' = tasksToRemove s"
proof (cases c)
  case (AddTimedTask a d r i)
  assume "exec_cmd c s = Some s'"
  then show ?thesis using addTimedTask_added[of a d r i s] AddTimedTask
    by (auto simp: exec_cmd_def added_def)
next
  case (AddConditionalTask a p w)
  assume "exec_cmd c s = Some s'"
  then show ?thesis using addConditionalTask_added[of a p w s] AddConditionalTask
    by (auto simp: exec_cmd_def added_def)
next
  case (AddConditionalTimedTask a p d w)
  assume "exec_cmd c s = Some s'"
  then show ?thesis using addConditionalTimedTask_added[of a p d w s] AddConditionalTimedTask
    by (auto simp: exec_cmd_def added_def)
qed (auto simp: exec_cmd_def setRepeatingTaskInterval_def hold_def
          resume_def setAndStartSequentialMode_def split: option.splits if_splits)

lemma exec_cmds_extends: "exec_cmds cs s = Some s' \<Longrightarrow> inLoop s \<Longrightarrow> extends s s'"
proof (induction cs arbitrary: s)
  case Nil
  then show ?case by (simp add: extends_refl)
next
  case (Cons c cs)
  from Cons.prems obtain s1 where s1: "exec_cmd c s = Some s1" "exec_cmds cs s1 = Some s'"
    by (auto split: option.splits)
  have e: "extends s s1" using exec_cmd_extends[OF s1(1) Cons.prems(2)] .
  then have "inLoop s1" using Cons.prems(2) by (simp add: extends_def)
  from Cons.IH[OF s1(2) this] e show ?case by (rule extends_trans[rotated])
qed

lemma exec_cmds_trace: "exec_cmds cs s = Some s' \<Longrightarrow> trace s' = trace s"
proof (induction cs arbitrary: s)
  case Nil
  then show ?case by simp
next
  case (Cons c cs)
  then show ?case by (auto split: option.splits dest: exec_cmd_trace)
qed

lemma exec_cmds_will_stop:
  "exec_cmds cs s = Some s' \<Longrightarrow> Stop \<notin> set cs \<Longrightarrow> will_stop s' = will_stop s"
proof (induction cs arbitrary: s)
  case Nil
  then show ?case by simp
next
  case (Cons c cs)
  then show ?case by (auto split: option.splits dest: exec_cmd_will_stop)
qed

lemma keeps_ledger_not_Stop: "list_all keeps_ledger cs \<Longrightarrow> Stop \<notin> set cs"
  by (induction cs) auto

lemma exec_cmds_keeps:
  "exec_cmds cs s = Some s' \<Longrightarrow> list_all keeps_ledger cs \<Longrightarrow> tasksToRemove s' = tasksToRemove s"
proof (induction cs arbitrary: s)
  case Nil
  then show ?case by simp
next
  case (Cons c cs)
  then show ?case by (auto split: option.splits dest: exec_cmd_keeps)
qed

lemma run_action_extends:
  assumes "run_action p a s = Some s'" "inLoop s"
  shows "extends s s' \<and> trace s' = trace s @ [(p, a)]"
proof -
  have e: "extends (s\<lparr>trace := trace s @ [(p, a)]\<rparr>) s'"
    using assms by (auto simp: run_action_def intro: exec_cmds_extends)
  have "trace s' = trace s @ [(p, a)]"
    using assms(1) exec_cmds_trace by (fastforce simp: run_action_def)
  then show ?thesis using e by (simp add: extends_def)
qed

lemma run_action_will_stop:
  assumes "run_action p a s = Some s'" "Stop \<notin> set (cmds a)"
  shows "will_stop s' = will_stop s"
  using assms exec_cmds_will_stop by (fastforce simp: run_action_def)

subsection \<open>Lists with distinct PIDs\<close>

lemma findByPID_append:
  "findByPID p (xs @ ys) = (case findByPID p xs of None \<Rightarrow> findByPID p ys | Some t \<Rightarrow> Some t)"
  by (induction xs) (auto simp: findByPID_def)

lemma findByPID_prefix: "p \<in> PID ` set xs \<Longrightarrow> findByPID p (xs @ ys) = findByPID p xs"
  using findByPID_None[of p xs] by (auto simp: findByPID_append split: option.splits)

lemma modifyTaskByPID_map:
  "distinct (map PID ts) \<Longrightarrow>
   modifyTaskByPID p new ts = map (\<lambda>t. if PID t = p then new else t) ts"
proof (induction ts)
  case Nil
  then show ?case by simp
next
  case (Cons t ts)
  have "PID t = p \<Longrightarrow> map (\<lambda>t. if PID t = p then new else t) ts = ts"
    using distinct_PID_Cons[OF Cons.prems] by (intro map_idI) auto
  then show ?case using Cons by simp
qed

lemma clearRepeat_map:
  "distinct (map PID ts) \<Longrightarrow>
   clearRepeat p ts = map (\<lambda>t. if PID t = p then t\<lparr>repeat := False\<rparr> else t) ts"
proof (induction ts)
  case Nil
  then show ?case by simp
next
  case (Cons t ts)
  have "PID t = p \<Longrightarrow> map (\<lambda>t. if PID t = p then t\<lparr>repeat := False\<rparr> else t) ts = ts"
    using distinct_PID_Cons[OF Cons.prems] by (intro map_idI) auto
  then show ?case using Cons by simp
qed

lemma fold_clearRepeat_map:
  "distinct (map PID ts) \<Longrightarrow>
   fold clearRepeat ps ts = map (\<lambda>t. if PID t \<in> set ps then t\<lparr>repeat := False\<rparr> else t) ts"
proof (induction ps arbitrary: ts)
  case Nil
  then show ?case by simp
next
  case (Cons p ps)
  have d: "distinct (map PID (clearRepeat p ts))" using Cons.prems by simp
  show ?case
    unfolding fold_simps Cons.IH[OF d]
    by (simp add: clearRepeat_map[OF Cons.prems] comp_def)
qed

lemma commitRemovals_filter:
  "distinct (map PID ts) \<Longrightarrow> commitRemovals rm ts = filter (\<lambda>t. PID t \<notin> set rm) ts"
  by (simp add: commitRemovals_def fold_eraseByPID_filter)

subsection \<open>Tasks through the passes\<close>

lemma onExecute_classify_activate [simp]:
  "onExecute (classify now pv (activate now pv t)) = onExecute t"
  by (simp add: classify_def meetCondition_def repairCondition_def activate_def setExecutionTime_def)

lemma findByPID_map:
  "(\<And>x. PID (f x) = PID x) \<Longrightarrow> findByPID p (map f ts) = map_option f (findByPID p ts)"
  by (induction ts) (auto simp: findByPID_def)

lemma findByPID_classified:
  "findByPID p (classified now pv ts) = map_option (\<lambda>t. classify now pv (activate now pv t)) (findByPID p ts)"
  unfolding classified_def activated_def map_map comp_def
  by (rule findByPID_map) simp

lemma findByPID_filter:
  "p \<notin> R \<Longrightarrow> findByPID p (filter (\<lambda>t. PID t \<notin> R) ts) = findByPID p ts"
  by (induction ts) (auto simp: findByPID_def)

lemma findByPID_modify_other:
  "PID new = q \<Longrightarrow> p \<noteq> q \<Longrightarrow> findByPID p (modifyTaskByPID q new ts) = findByPID p ts"
  by (induction ts) (auto simp: findByPID_def)

lemma execPIDs_subset: "set (execPIDs now pv ts) \<subseteq> PID ` set ts"
  by (auto simp: execPIDs_def activated_def)

lemma removePIDs_subset: "set (removePIDs now pv ts) \<subseteq> PID ` set ts"
  by (auto simp: removePIDs_def activated_def)

lemma distinct_execPIDs: "distinct (map PID ts) \<Longrightarrow> distinct (execPIDs now pv ts)"
proof -
  assume "distinct (map PID ts)"
  then have "distinct (map PID (activated now pv ts))" by (simp add: activated_def comp_def)
  then show ?thesis unfolding execPIDs_def by (rule distinct_map_filter)
qed

lemma execPIDs_mem:
  "distinct (map PID ts) \<Longrightarrow> t \<in> set ts \<Longrightarrow>
   PID t \<in> set (execPIDs now pv ts) \<longleftrightarrow> due now (activate now pv t)"
proof -
  assume d: "distinct (map PID ts)" and t: "t \<in> set ts"
  have u: "\<And>x. x \<in> set ts \<Longrightarrow> PID x = PID t \<Longrightarrow> x = t"
    using d t by (meson distinct_map inj_onD)
  show ?thesis
  proof
    assume "PID t \<in> set (execPIDs now pv ts)"
    then obtain x where "x \<in> set ts" "due now (activate now pv x)" "PID x = PID t"
      by (auto simp: execPIDs_def activated_def)
    then show "due now (activate now pv t)" using u by blast
  next
    assume "due now (activate now pv t)"
    then have "activate now pv t \<in> set (filter (due now) (activated now pv ts))"
      using t by (simp add: activated_def)
    then have "PID (activate now pv t) \<in> set (execPIDs now pv ts)"
      unfolding execPIDs_def by (metis imageI set_map)
    then show "PID t \<in> set (execPIDs now pv ts)" by simp
  qed
qed

lemma removePIDs_mem:
  "distinct (map PID ts) \<Longrightarrow> t \<in> set ts \<Longrightarrow>
   PID t \<in> set (removePIDs now pv ts) \<longleftrightarrow> timedOut now pv (activate now pv t)"
proof -
  assume d: "distinct (map PID ts)" and t: "t \<in> set ts"
  have u: "\<And>x. x \<in> set ts \<Longrightarrow> PID x = PID t \<Longrightarrow> x = t"
    using d t by (meson distinct_map inj_onD)
  show ?thesis
  proof
    assume "PID t \<in> set (removePIDs now pv ts)"
    then obtain x where "x \<in> set ts" "timedOut now pv (activate now pv x)" "PID x = PID t"
      by (auto simp: removePIDs_def activated_def)
    then show "timedOut now pv (activate now pv t)" using u by blast
  next
    assume "timedOut now pv (activate now pv t)"
    then have "activate now pv t \<in> set (filter (timedOut now pv) (activated now pv ts))"
      using t by (simp add: activated_def)
    then have "PID (activate now pv t) \<in> set (removePIDs now pv ts)"
      unfolding removePIDs_def by (metis imageI set_map)
    then show "PID t \<in> set (removePIDs now pv ts)" by simp
  qed
qed

subsection \<open>Reconciliation\<close>

lemma PID_resetTask [simp]: "PID (resetTask t) = PID t"
  by (simp add: resetTask_def)

lemma reconcile_untouched:
  "p \<notin> set ps \<Longrightarrow> findByPID p (fst (reconcile ps ts rm)) = findByPID p ts"
proof (induction ps arbitrary: ts rm)
  case Nil
  then show ?case by simp
next
  case (Cons q ps)
  show ?case
  proof (cases "findByPID q ts")
    case None
    then show ?thesis using Cons by simp
  next
    case (Some t)
    then have "PID t = q" by (auto dest: findByPID_Some)
    then show ?thesis using Cons Some
      by (simp add: findByPID_modify_other)
  qed
qed

lemma reconcile_rm_mono: "set rm \<subseteq> set (snd (reconcile ps ts rm))"
proof (induction ps arbitrary: ts rm)
  case Nil
  then show ?case by simp
next
  case (Cons q ps)
  show ?case
  proof (cases "findByPID q ts")
    case None
    then show ?thesis using Cons by simp
  next
    case (Some t)
    show ?thesis
    proof (cases "repeat t")
      case True
      then show ?thesis using Some Cons.IH by simp
    next
      case False
      have "set rm \<subseteq> set (rm @ [PID t])" by auto
      also have "\<dots> \<subseteq> set (snd (reconcile ps ts (rm @ [PID t])))" by (rule Cons.IH)
      finally show ?thesis using Some False by simp
    qed
  qed
qed

lemma reconcile_rm_subset: "set (snd (reconcile ps ts rm)) \<subseteq> set rm \<union> set ps"
proof (induction ps arbitrary: ts rm)
  case Nil
  then show ?case by simp
next
  case (Cons q ps)
  show ?case
  proof (cases "findByPID q ts")
    case None
    then show ?thesis using Cons.IH[of ts rm] by auto
  next
    case (Some t)
    then have q: "PID t = q" by (auto dest: findByPID_Some)
    show ?thesis
    proof (cases "repeat t")
      case True
      then show ?thesis using Some Cons.IH[of "modifyTaskByPID (PID t) (resetTask t) ts" rm] by auto
    next
      case False
      then show ?thesis using Some q Cons.IH[of ts "rm @ [PID t]"] by auto
    qed
  qed
qed

lemma reconcile_removes:
  "p \<in> set ps \<Longrightarrow> findByPID p ts = Some t \<Longrightarrow> \<not> repeat t \<Longrightarrow> p \<in> set (snd (reconcile ps ts rm))"
proof (induction ps arbitrary: ts rm)
  case Nil
  then show ?case by simp
next
  case (Cons q ps)
  show ?case
  proof (cases "q = p")
    case True
    have "PID t = p" using Cons.prems(2) by (auto dest: findByPID_Some)
    then have "p \<in> set (rm @ [PID t])" by simp
    then have "p \<in> set (snd (reconcile ps ts (rm @ [PID t])))"
      using reconcile_rm_mono by blast
    then show ?thesis using True Cons.prems by simp
  next
    case False
    then have pin: "p \<in> set ps" using Cons.prems(1) by simp
    show ?thesis
    proof (cases "findByPID q ts")
      case None
      then show ?thesis using Cons.IH[OF pin Cons.prems(2,3)] by simp
    next
      case (Some u)
      then have q: "PID u = q" by (auto dest: findByPID_Some)
      show ?thesis
      proof (cases "repeat u")
        case True
        have "findByPID p (modifyTaskByPID (PID u) (resetTask u) ts) = Some t"
          using Cons.prems(2) False q by (simp add: findByPID_modify_other)
        from Cons.IH[OF pin this Cons.prems(3)] show ?thesis using Some True by simp
      next
        case False
        then show ?thesis using Some Cons.IH[OF pin Cons.prems(2,3)] by simp
      qed
    qed
  qed
qed

lemma reconcile_no_repeat:
  "(\<And>p t. p \<in> set ps \<Longrightarrow> findByPID p ts = Some t \<Longrightarrow> \<not> repeat t) \<Longrightarrow>
   fst (reconcile ps ts rm) = ts"
proof (induction ps arbitrary: rm)
  case Nil
  then show ?case by simp
next
  case (Cons q ps)
  have ih: "fst (reconcile ps ts rm') = ts" for rm'
  proof (rule Cons.IH)
    fix p t assume "p \<in> set ps" "findByPID p ts = Some t"
    then show "\<not> repeat t" using Cons.prems[of p t] by simp
  qed
  show ?case
  proof (cases "findByPID q ts")
    case None
    then show ?thesis using ih by simp
  next
    case (Some t)
    then have "\<not> repeat t" using Cons.prems[of q t] by simp
    then show ?thesis using Some ih by simp
  qed
qed

subsection \<open>The trace of a dispatch\<close>

lemma fired_run_action: "run_action p a s = Some s' \<Longrightarrow> fired s' = fired s @ [p]"
  using exec_cmds_trace by (fastforce simp: run_action_def fired_def)

lemma fired_stopInside [simp]: "fired (snd (stopInside s)) = fired s"
  by (simp add: stopInside_def fired_def)

lemma dispatch_fired:
  "dispatch ps s = Some (st, s') \<Longrightarrow> \<exists>F. fired s' = fired s @ F \<and> set F \<subseteq> set ps"
proof (induction ps arbitrary: s)
  case Nil
  then show ?case by simp
next
  case (Cons p ps)
  show ?case
  proof (cases "getTaskActionByPID p s")
    case None
    then have "dispatch ps s = Some (st, s')" using Cons.prems by simp
    from Cons.IH[OF this] show ?thesis by auto
  next
    case (Some a)
    obtain s1 where r: "run_action p a s = Some s1" using run_action_total by blast
    have f1: "fired s1 = fired s @ [p]" using fired_run_action[OF r] .
    show ?thesis
    proof (cases "will_stop s1")
      case True
      then have "s' = snd (stopInside s1)" using Cons.prems Some r by simp
      then have "fired s' = fired s @ [p]" using f1 by simp
      then show ?thesis by (intro exI[of _ "[p]"]) simp
    next
      case False
      then have "dispatch ps s1 = Some (st, s')" using Cons.prems Some r by simp
      from Cons.IH[OF this] obtain F where "fired s' = fired s1 @ F" "set F \<subseteq> set ps" by blast
      then show ?thesis using f1 by (intro exI[of _ "p # F"]) auto
    qed
  qed
qed

subsection \<open>Entering the loop\<close>

lemma enterLoop_fields [simp]:
  "tasksToRemove (enterLoop s) = []" "inLoop (enterLoop s)"
  "will_stop (enterLoop s) = will_stop s" "sequentialMode (enterLoop s) = sequentialMode s"
  "trace (enterLoop s) = trace s" "fired (enterLoop s) = fired s"
  "lastSequentialFinishTime (enterLoop s) = lastSequentialFinishTime s"
  by (simp_all add: enterLoop_def clearMarkedForRemoval_def fired_def)

lemma tasks_enterLoop:
  "store_ok s \<Longrightarrow> tasks (enterLoop s) = filter (\<lambda>t. PID t \<notin> set (tasksToRemove s)) (tasks s)"
  by (simp add: enterLoop_def clearMarkedForRemoval_def fold_eraseByPID_filter store_ok_def pids_ok_def)

lemma loop_parallel:
  "\<not> onHold s \<Longrightarrow> tasks s \<noteq> [] \<Longrightarrow> \<not> will_stop s \<Longrightarrow> \<not> sequentialMode s \<Longrightarrow>
   loop now pv s = map_option (\<lambda>r. r\<lparr>inLoop := False\<rparr>) (parallelLoop now pv (enterLoop s))"
  by (simp add: loop_def)

lemma loop_sequential:
  "\<not> onHold s \<Longrightarrow> tasks s \<noteq> [] \<Longrightarrow> \<not> will_stop s \<Longrightarrow> sequentialMode s \<Longrightarrow>
   loop now pv s = map_option (\<lambda>r. r\<lparr>inLoop := False\<rparr>) (sequentialLoop now pv (enterLoop s))"
  by (simp add: loop_def)

subsection \<open>A timed-out task leaves the store\<close>

lemma timedOut_not_due: "timedOut now pv t \<Longrightarrow> \<not> due now t"
  by (simp add: timedOut_def expired_def due_def repairCondition_def split: if_splits)

lemma parallel_timeout:
  assumes "store_ok s" "t \<in> set (tasks s)" "timedOut now pv (activate now pv t)"
  shows "\<exists>s' F. parallelLoop now pv s = Some s' \<and> PID t \<notin> PID ` set (tasks s')
           \<and> fired s' = fired s @ F \<and> PID t \<notin> set F"
proof -
  let ?ex = "execPIDs now pv (tasks s)" and ?rm = "removePIDs now pv (tasks s)"
  have d0: "distinct (map PID (tasks s))" using assms(1) by (simp add: store_ok_def pids_ok_def)
  have ok: "store_ok (afterPasses now pv s)" using assms(1) by (simp add: store_ok_afterPasses)
  obtain st s1 where d: "dispatch ?ex (afterPasses now pv s) = Some (st, s1)"
    using dispatch_total by (metis surj_pair)
  have ok1: "pids_ok (tasks s1)" using dispatch_store_ok[OF d ok] by (simp add: store_ok_def)
  let ?ps = "case st of None \<Rightarrow> ?ex | Some ps \<Rightarrow> ps"
  obtain ts' rm' where r: "reconcile ?ps (tasks s1) ?rm = (ts', rm')" by (metis surj_pair)
  have "map PID ts' = map PID (tasks s1)" using map_PID_reconcile[of ?ps "tasks s1" ?rm] r by simp
  then have d': "distinct (map PID ts')" using ok1 by (simp add: pids_ok_def)
  have "PID t \<in> set ?rm" using removePIDs_mem[OF d0 assms(2)] assms(3) by simp
  then have "PID t \<in> set rm'" using reconcile_rm_mono[of ?rm ?ps "tasks s1"] r by auto
  then have gone: "PID t \<notin> PID ` set (commitRemovals rm' ts')"
    by (auto simp: commitRemovals_filter[OF d'])
  have "PID t \<notin> set ?ex"
    using execPIDs_mem[OF d0 assms(2)] timedOut_not_due[OF assms(3)] by simp
  moreover obtain F where "fired s1 = fired (afterPasses now pv s) @ F" "set F \<subseteq> set ?ex"
    using dispatch_fired[OF d] by blast
  ultimately have "fired s1 = fired s @ F" "PID t \<notin> set F"
    by (auto simp: afterPasses_def fired_def)
  then show ?thesis using parallelLoop_unfold[OF d r] gone by (simp add: fired_def)
qed

subsection \<open>A tick in which no dispatched action calls \<open>stop\<close>\<close>

lemma dispatch_nostop:
  assumes "store_ok s" "inLoop s" "\<not> will_stop s" "set ps \<subseteq> PID ` set (tasks s)"
    "\<forall>t\<in>set (tasks s). PID t \<in> set ps \<longrightarrow> Stop \<notin> set (cmds (onExecute t))"
  shows "\<exists>s'. dispatch ps s = Some (None, s') \<and> extends s s' \<and> \<not> will_stop s'
              \<and> fired s' = fired s @ ps"
  using assms
proof (induction ps arbitrary: s)
  case Nil
  then show ?case by (simp add: extends_refl)
next
  case (Cons p ps)
  from Cons.prems(4) obtain t where t: "findByPID p (tasks s) = Some t"
    using findByPID_None[of p "tasks s"] by fastforce
  then have tin: "t \<in> set (tasks s)" "PID t = p" by (auto dest: findByPID_Some)
  then have ns: "Stop \<notin> set (cmds (onExecute t))" using Cons.prems(5) by simp
  obtain s1 where r: "run_action p (onExecute t) s = Some s1" using run_action_total by blast
  have e1: "extends s s1" using run_action_extends[OF r Cons.prems(2)] by simp
  have w1: "\<not> will_stop s1" using run_action_will_stop[OF r ns] Cons.prems(3) by simp
  have f1: "fired s1 = fired s @ [p]" using fired_run_action[OF r] .
  have ok1: "store_ok s1" using run_action_store_ok[OF r Cons.prems(1)] .
  have in1: "inLoop s1" using e1 Cons.prems(2) by (simp add: extends_def)
  obtain new where new: "tasks s1 = tasks s @ new" using e1 by (auto simp: extends_def)
  have sub1: "set ps \<subseteq> PID ` set (tasks s1)" using Cons.prems(4) new by auto
  have d1: "distinct (map PID (tasks s @ new))" using ok1 new by (simp add: store_ok_def pids_ok_def)
  have ns1: "\<forall>x\<in>set (tasks s1). PID x \<in> set ps \<longrightarrow> Stop \<notin> set (cmds (onExecute x))"
  proof (intro ballI impI)
    fix x assume x: "x \<in> set (tasks s1)" "PID x \<in> set ps"
    have "x \<in> set (tasks s)"
    proof (rule ccontr)
      assume "x \<notin> set (tasks s)"
      then have "x \<in> set new" using x(1) new by simp
      then have "PID x \<notin> PID ` set (tasks s)" using d1 by auto
      then show False using x(2) Cons.prems(4) by auto
    qed
    then show "Stop \<notin> set (cmds (onExecute x))" using Cons.prems(5) x(2) by simp
  qed
  from Cons.IH[OF ok1 in1 w1 sub1 ns1] obtain s' where s':
    "dispatch ps s1 = Some (None, s')" "extends s1 s'" "\<not> will_stop s'" "fired s' = fired s1 @ ps"
    by blast
  have "dispatch (p # ps) s = Some (None, s')"
    using t r w1 s'(1) by (simp add: getTaskActionByPID_def)
  then show ?case using extends_trans[OF e1 s'(2)] s'(3,4) f1 by simp
qed

lemma parallelLoop_nostop:
  assumes "store_ok s" "inLoop s" "\<not> will_stop s"
    "\<forall>t\<in>set (tasks s). Stop \<notin> set (cmds (onExecute t))"
  shows "\<exists>s1 new. dispatch (execPIDs now pv (tasks s)) (afterPasses now pv s) = Some (None, s1)
           \<and> tasks s1 = classified now pv (tasks s) @ new \<and> pids_ok (tasks s1)
           \<and> fired s1 = fired s @ execPIDs now pv (tasks s)
           \<and> parallelLoop now pv s
               = Some (s1\<lparr>tasks := commitRemovals
                      (snd (reconcile (execPIDs now pv (tasks s)) (tasks s1) (removePIDs now pv (tasks s))))
                      (fst (reconcile (execPIDs now pv (tasks s)) (tasks s1) (removePIDs now pv (tasks s))))\<rparr>)"
proof -
  let ?ex = "execPIDs now pv (tasks s)" and ?s0 = "afterPasses now pv s"
  have ok: "store_ok ?s0" using assms(1) by (simp add: store_ok_afterPasses)
  have il: "inLoop ?s0" "\<not> will_stop ?s0" using assms(2,3) by (simp_all add: afterPasses_def)
  have t0: "tasks ?s0 = classified now pv (tasks s)" by (simp add: afterPasses_def)
  have sub: "set ?ex \<subseteq> PID ` set (tasks ?s0)"
    using execPIDs_subset[of now pv "tasks s"] map_PID_classified[of now pv "tasks s"]
    unfolding t0 by (metis set_map)
  have ns: "\<forall>t\<in>set (tasks ?s0). PID t \<in> set ?ex \<longrightarrow> Stop \<notin> set (cmds (onExecute t))"
    using assms(4) by (auto simp: t0 classified_def activated_def)
  from dispatch_nostop[OF ok il sub ns] obtain s1 where s1:
    "dispatch ?ex ?s0 = Some (None, s1)" "extends ?s0 s1" "fired s1 = fired ?s0 @ ?ex"
    by blast
  obtain new where new: "tasks s1 = classified now pv (tasks s) @ new"
    using s1(2) t0 by (auto simp: extends_def)
  have ok1: "pids_ok (tasks s1)" using dispatch_store_ok[OF s1(1) ok] by (simp add: store_ok_def)
  have f: "fired s1 = fired s @ ?ex" using s1(3) by (simp add: afterPasses_def fired_def)
  have "parallelLoop now pv s = Some (s1\<lparr>tasks := commitRemovals
           (snd (reconcile ?ex (tasks s1) (removePIDs now pv (tasks s))))
           (fst (reconcile ?ex (tasks s1) (removePIDs now pv (tasks s))))\<rparr>)"
    using s1(1) by (simp add: parallelLoop_def split: prod.splits)
  then show ?thesis using s1(1) new ok1 f by blast
qed

lemma distinct_count_list: "distinct xs \<Longrightarrow> x \<in> set xs \<Longrightarrow> count_list xs x = 1"
  by (induction xs) auto

lemma parallel_untouched:
  assumes "store_ok s" "inLoop s" "\<not> will_stop s"
    "\<forall>t\<in>set (tasks s). Stop \<notin> set (cmds (onExecute t))"
    "t \<in> set (tasks s)" "\<not> due now (activate now pv t)" "\<not> timedOut now pv (activate now pv t)"
  shows "\<exists>s' F. parallelLoop now pv s = Some s'
           \<and> findByPID (PID t) (tasks s') = Some (classify now pv (activate now pv t))
           \<and> fired s' = fired s @ F \<and> PID t \<notin> set F"
proof -
  let ?ex = "execPIDs now pv (tasks s)" and ?rm = "removePIDs now pv (tasks s)"
  have d0: "distinct (map PID (tasks s))" using assms(1) by (simp add: store_ok_def pids_ok_def)
  from parallelLoop_nostop[OF assms(1-4), of now pv] obtain s1 new where s1:
    "tasks s1 = classified now pv (tasks s) @ new" "pids_ok (tasks s1)" "fired s1 = fired s @ ?ex"
    "parallelLoop now pv s = Some (s1\<lparr>tasks := commitRemovals
        (snd (reconcile ?ex (tasks s1) ?rm)) (fst (reconcile ?ex (tasks s1) ?rm))\<rparr>)"
    by blast
  let ?ts' = "fst (reconcile ?ex (tasks s1) ?rm)" and ?rm' = "snd (reconcile ?ex (tasks s1) ?rm)"
  have nex: "PID t \<notin> set ?ex" using execPIDs_mem[OF d0 assms(5)] assms(6) by simp
  have nrm: "PID t \<notin> set ?rm" using removePIDs_mem[OF d0 assms(5)] assms(7) by simp
  have nrm': "PID t \<notin> set ?rm'" using reconcile_rm_subset[of ?ex "tasks s1" ?rm] nex nrm by auto
  have d': "distinct (map PID ?ts')"
    using s1(2) map_PID_reconcile[of ?ex "tasks s1" ?rm] by (simp add: pids_ok_def)
  have pin: "PID t \<in> PID ` set (classified now pv (tasks s))"
    using assms(5) map_PID_classified[of now pv "tasks s"] by (metis imageI set_map)
  have "findByPID (PID t) (commitRemovals ?rm' ?ts') = findByPID (PID t) ?ts'"
    using nrm' by (simp add: commitRemovals_filter[OF d'] findByPID_filter)
  also have "\<dots> = findByPID (PID t) (tasks s1)" using nex by (rule reconcile_untouched)
  also have "\<dots> = findByPID (PID t) (classified now pv (tasks s))"
    unfolding s1(1) using pin by (rule findByPID_prefix)
  also have "\<dots> = Some (classify now pv (activate now pv t))"
    by (simp add: findByPID_classified findByPID_distinct[OF d0 assms(5)])
  finally show ?thesis using s1(3,4) nex by (simp add: fired_def)
qed

lemma repeat_classify_activate [simp]:
  "repeat (classify now pv (activate now pv t)) = repeat t"
  by (simp add: classify_def meetCondition_def repairCondition_def activate_def setExecutionTime_def)

lemma parallel_fires:
  assumes "store_ok s" "inLoop s" "\<not> will_stop s"
    "\<forall>t\<in>set (tasks s). Stop \<notin> set (cmds (onExecute t))"
    "t \<in> set (tasks s)" "due now (activate now pv t)" "\<not> repeat t"
  shows "\<exists>s' F. parallelLoop now pv s = Some s' \<and> PID t \<notin> PID ` set (tasks s')
           \<and> fired s' = fired s @ F \<and> count_list F (PID t) = 1"
proof -
  let ?ex = "execPIDs now pv (tasks s)" and ?rm = "removePIDs now pv (tasks s)"
  have d0: "distinct (map PID (tasks s))" using assms(1) by (simp add: store_ok_def pids_ok_def)
  from parallelLoop_nostop[OF assms(1-4), of now pv] obtain s1 new where s1:
    "tasks s1 = classified now pv (tasks s) @ new" "pids_ok (tasks s1)" "fired s1 = fired s @ ?ex"
    "parallelLoop now pv s = Some (s1\<lparr>tasks := commitRemovals
        (snd (reconcile ?ex (tasks s1) ?rm)) (fst (reconcile ?ex (tasks s1) ?rm))\<rparr>)"
    by blast
  let ?ts' = "fst (reconcile ?ex (tasks s1) ?rm)" and ?rm' = "snd (reconcile ?ex (tasks s1) ?rm)"
  have ex: "PID t \<in> set ?ex" using execPIDs_mem[OF d0 assms(5)] assms(6) by simp
  have pin: "PID t \<in> PID ` set (classified now pv (tasks s))"
    using assms(5) map_PID_classified[of now pv "tasks s"] by (metis imageI set_map)
  have "findByPID (PID t) (tasks s1) = findByPID (PID t) (classified now pv (tasks s))"
    unfolding s1(1) using pin by (rule findByPID_prefix)
  also have "\<dots> = Some (classify now pv (activate now pv t))"
    by (simp add: findByPID_classified findByPID_distinct[OF d0 assms(5)])
  finally have "PID t \<in> set ?rm'"
    using reconcile_removes[OF ex, of "tasks s1" _ ?rm] assms(7) by simp
  moreover have d': "distinct (map PID ?ts')"
    using s1(2) map_PID_reconcile[of ?ex "tasks s1" ?rm] by (simp add: pids_ok_def)
  ultimately have gone: "PID t \<notin> PID ` set (commitRemovals ?rm' ?ts')"
    by (auto simp: commitRemovals_filter[OF d'])
  have "count_list ?ex (PID t) = 1"
    using distinct_count_list[OF distinct_execPIDs[OF d0] ex] .
  then show ?thesis using s1(3,4) gone by (simp add: fired_def)
qed

subsection \<open>Signed clock differences\<close>

lemma sint_neg_pos:
  fixes W :: u32
  assumes "0 < sint W"
  shows "sint (- W) = - sint W"
proof -
  have "sint W < 2 ^ 31" using sint_lt[of W] by simp
  then have "signed_take_bit 31 (- sint W) = - sint W"
    using assms by (intro signed_take_bit_int_eq_self) auto
  then show ?thesis by (simp add: sint_word_ariths)
qed

lemma not_due_at_activation:
  fixes W now :: u32
  assumes "0 < sint W"
  shows "\<not> 0 \<le> sint (now - (if now + W = 0 then 1 else now + W))"
proof (cases "now + W = 0")
  case False
  have "now - (now + W) = - W" by simp
  then show ?thesis using False sint_neg_pos[OF assms] assms by simp
next
  case True
  then have n: "now = - W" by (simp add: eq_neg_iff_add_eq_0)
  have "sint W < 2 ^ 31" using sint_lt[of W] by simp
  then have "signed_take_bit 31 (- sint W - 1) = - sint W - 1"
    using assms by (intro signed_take_bit_int_eq_self) auto
  then have "sint (- W - 1) = - sint W - 1"
    using sint_neg_pos[OF assms] by (simp add: sint_word_ariths)
  then show ?thesis using True n assms by simp
qed


subsection \<open>From the parallel tick to \<open>loop\<close>\<close>

lemma loop_parallel_lift:
  assumes "store_ok s" "\<not> onHold s" "\<not> will_stop s" "\<not> sequentialMode s"
    "t \<in> set (tasks s)" "PID t \<notin> set (tasksToRemove s)"
  shows "loop now pv s = map_option (\<lambda>r. r\<lparr>inLoop := False\<rparr>) (parallelLoop now pv (enterLoop s))"
    and "store_ok (enterLoop s)" and "t \<in> set (tasks (enterLoop s))"
    and "set (tasks (enterLoop s)) \<subseteq> set (tasks s)"
proof -
  have "tasks s \<noteq> []" using assms(5) by auto
  then show "loop now pv s = map_option (\<lambda>r. r\<lparr>inLoop := False\<rparr>) (parallelLoop now pv (enterLoop s))"
    using assms by (simp add: loop_parallel)
  show "store_ok (enterLoop s)" using assms(1) by (rule store_ok_enterLoop)
  show "t \<in> set (tasks (enterLoop s))" using assms(1,5,6) by (simp add: tasks_enterLoop)
  show "set (tasks (enterLoop s)) \<subseteq> set (tasks s)" using assms(1) by (auto simp: tasks_enterLoop)
qed

lemma loop_untouched:
  assumes "store_ok s" "\<not> onHold s" "\<not> will_stop s" "\<not> sequentialMode s"
    "t \<in> set (tasks s)" "PID t \<notin> set (tasksToRemove s)"
    "\<forall>x\<in>set (tasks s). Stop \<notin> set (cmds (onExecute x))"
    "\<not> due now (activate now pv t)" "\<not> timedOut now pv (activate now pv t)"
  shows "\<exists>s' F. loop now pv s = Some s'
           \<and> findByPID (PID t) (tasks s') = Some (classify now pv (activate now pv t))
           \<and> fired s' = fired s @ F \<and> PID t \<notin> set F"
proof -
  note l = loop_parallel_lift[OF assms(1-6)]
  have ns: "\<forall>x\<in>set (tasks (enterLoop s)). Stop \<notin> set (cmds (onExecute x))"
    using assms(7) l(4) by blast
  from parallel_untouched[OF l(2) _ _ ns l(3) assms(8,9)] assms(3)
  obtain r F where "parallelLoop now pv (enterLoop s) = Some r"
    "findByPID (PID t) (tasks r) = Some (classify now pv (activate now pv t))"
    "fired r = fired s @ F" "PID t \<notin> set F" by auto
  then show ?thesis using l(1)[of now pv] by (auto simp: fired_def)
qed

lemma loop_fires:
  assumes "store_ok s" "\<not> onHold s" "\<not> will_stop s" "\<not> sequentialMode s"
    "t \<in> set (tasks s)" "PID t \<notin> set (tasksToRemove s)"
    "\<forall>x\<in>set (tasks s). Stop \<notin> set (cmds (onExecute x))"
    "due now (activate now pv t)" "\<not> repeat t"
  shows "\<exists>s' F. loop now pv s = Some s' \<and> PID t \<notin> PID ` set (tasks s')
           \<and> fired s' = fired s @ F \<and> count_list F (PID t) = 1"
proof -
  note l = loop_parallel_lift[OF assms(1-6)]
  have ns: "\<forall>x\<in>set (tasks (enterLoop s)). Stop \<notin> set (cmds (onExecute x))"
    using assms(7) l(4) by blast
  from parallel_fires[OF l(2) _ _ ns l(3) assms(8,9)] assms(3)
  obtain r F where "parallelLoop now pv (enterLoop s) = Some r"
    "PID t \<notin> PID ` set (tasks r)" "fired r = fired s @ F" "count_list F (PID t) = 1" by auto
  then show ?thesis using l(1)[of now pv] by (auto simp: fired_def)
qed

lemma loop_timeout:
  assumes "store_ok s" "\<not> onHold s" "\<not> will_stop s" "\<not> sequentialMode s"
    "t \<in> set (tasks s)" "PID t \<notin> set (tasksToRemove s)"
    "timedOut now pv (activate now pv t)"
  shows "\<exists>s' F. loop now pv s = Some s' \<and> PID t \<notin> PID ` set (tasks s')
           \<and> fired s' = fired s @ F \<and> PID t \<notin> set F"
proof -
  note l = loop_parallel_lift[OF assms(1-6)]
  from parallel_timeout[OF l(2,3) assms(7)]
  obtain r F where "parallelLoop now pv (enterLoop s) = Some r"
    "PID t \<notin> PID ` set (tasks r)" "fired r = fired s @ F" "PID t \<notin> set F" by auto
  then show ?thesis using l(1)[of now pv] by (auto simp: fired_def)
qed

subsection \<open>The head of the store in sequential mode\<close>

lemma loop_sequential_head:
  assumes "store_ok s" "\<not> onHold s" "\<not> will_stop s" "sequentialMode s"
    "tasks s = t # rest" "PID t \<notin> set (tasksToRemove s)"
  shows "loop now pv s = map_option (\<lambda>r. r\<lparr>inLoop := False\<rparr>) (sequentialLoop now pv (enterLoop s))"
    and "\<exists>rest'. tasks (enterLoop s) = t # rest' \<and> PID t \<notin> PID ` set rest'"
proof -
  show "loop now pv s = map_option (\<lambda>r. r\<lparr>inLoop := False\<rparr>) (sequentialLoop now pv (enterLoop s))"
    using assms by (simp add: loop_sequential)
  have d: "distinct (map PID (t # rest))" using assms(1,5) by (simp add: store_ok_def pids_ok_def)
  have "tasks (enterLoop s) = t # filter (\<lambda>t. PID t \<notin> set (tasksToRemove s)) rest"
    using assms(1,5,6) by (simp add: tasks_enterLoop)
  moreover have "PID t \<notin> PID ` set (filter (\<lambda>t. PID t \<notin> set (tasksToRemove s)) rest)"
    using distinct_PID_Cons[OF d] by auto
  ultimately show "\<exists>rest'. tasks (enterLoop s) = t # rest' \<and> PID t \<notin> PID ` set rest'" by blast
qed

subsection \<open>An action that calls \<open>stop\<close>\<close>

lemma exec_cmds_append:
  "exec_cmds (xs @ ys) s = (case exec_cmds xs s of None \<Rightarrow> None | Some s' \<Rightarrow> exec_cmds ys s')"
  by (induction xs arbitrary: s) (auto split: option.splits)

lemma extends_store_ok: "extends s s' \<Longrightarrow> store_ok s \<Longrightarrow> store_ok s'"
  by (simp add: extends_def store_ok_def)

lemma stopper:
  assumes "store_ok s" "inLoop s" "ledger_ok s" "cmds act = cs1 @ Stop # cs2"
    "list_all keeps_ledger cs2"
  shows "\<exists>sa sc new pre.
           exec_cmds cs1 (s\<lparr>trace := trace s @ [(p, act)]\<rparr>) = Some sa
         \<and> exec_cmds cs2 (stop sa) = Some sc
         \<and> run_action p act s = Some sc
         \<and> will_stop sc \<and> inLoop sc
         \<and> tasks sa = tasks s @ pre \<and> tasks sc = tasks sa @ new \<and> pids_ok (tasks sc)
         \<and> set (tasksToRemove sc) = PID ` set (tasks sa)
         \<and> fired sc = fired s @ [p]"
proof -
  let ?s0 = "s\<lparr>trace := trace s @ [(p, act)]\<rparr>"
  have s0: "store_ok ?s0" "inLoop ?s0" "ledger_ok ?s0"
    using assms(1-3) by (simp_all add: store_ok_def ledger_ok_def)
  obtain sa where sa: "exec_cmds cs1 ?s0 = Some sa" using exec_cmds_total by blast
  have ea: "extends ?s0 sa" using exec_cmds_extends[OF sa s0(2)] .
  have oka: "store_ok sa" "ledger_ok sa" "inLoop sa"
    using extends_store_ok[OF ea s0(1)] extends_ledger_ok[OF ea s0(3)] ea s0(2)
    by (simp_all add: extends_def)
  obtain pre where pre: "tasks sa = tasks s @ pre" using ea by (auto simp: extends_def)
  let ?sb = "stop sa"
  have sb: "store_ok ?sb" "inLoop ?sb" "will_stop ?sb" "tasks ?sb = tasks sa"
    "set (tasksToRemove ?sb) = PID ` set (tasks sa)"
    using oka by (auto simp: stop_def store_ok_def ledger_ok_def)
  obtain sc where sc: "exec_cmds cs2 ?sb = Some sc" using exec_cmds_total by blast
  have ec: "extends ?sb sc" using exec_cmds_extends[OF sc sb(2)] .
  obtain new where new: "tasks sc = tasks sa @ new" using ec sb(4) by (auto simp: extends_def)
  have okc: "pids_ok (tasks sc)" using extends_store_ok[OF ec sb(1)] by (simp add: store_ok_def)
  have wc: "will_stop sc"
    using exec_cmds_will_stop[OF sc keeps_ledger_not_Stop[OF assms(5)]] sb(3) by simp
  have lc: "set (tasksToRemove sc) = PID ` set (tasks sa)"
    using exec_cmds_keeps[OF sc assms(5)] sb(5) by simp
  have ic: "inLoop sc" using ec sb(2) by (simp add: extends_def)
  have run: "run_action p act s = Some sc"
    using sa sc by (simp add: run_action_def assms(4) exec_cmds_append exec_cmd_def)
  have "trace sc = trace s @ [(p, act)]"
    using exec_cmds_trace[OF sc] exec_cmds_trace[OF sa] by (simp add: stop_def)
  then have "fired sc = fired s @ [p]" by (simp add: fired_def)
  then show ?thesis using sa sc run wc ic pre new okc lc by blast
qed

lemma erase_prefix:
  assumes "distinct (map PID (xs @ ys))" "set ps = PID ` set xs"
  shows "fold eraseByPID ps (xs @ ys) = ys"
proof -
  have "set ps \<inter> PID ` set (xs @ ys) = PID ` set xs" using assms(2) by (auto simp: image_Un)
  from filter_prefix_out[OF assms(1) this] show ?thesis
    using assms(1) by (simp add: fold_eraseByPID_filter)
qed

lemma commit_after_stop:
  assumes "distinct (map PID (xs @ ys))" "set L = PID ` set xs" "set rm \<subseteq> PID ` set xs"
  shows "commitRemovals
           (snd (reconcile (filter (\<lambda>p. findByPID p (xs @ ys) \<noteq> None) L)
                   (fold clearRepeat L (xs @ ys)) rm))
           (fst (reconcile (filter (\<lambda>p. findByPID p (xs @ ys) \<noteq> None) L)
                   (fold clearRepeat L (xs @ ys)) rm))
         = ys"
proof -
  let ?f = "\<lambda>t. if PID t \<in> set L then t\<lparr>repeat := False\<rparr> else t"
  let ?T = "fold clearRepeat L (xs @ ys)"
  have T: "?T = map ?f (xs @ ys)" using assms(1) by (rule fold_clearRepeat_map)
  have pf: "\<And>x. PID (?f x) = PID x" by simp
  have found: "\<And>p. p \<in> set L \<Longrightarrow> findByPID p (xs @ ys) \<noteq> None"
    using assms(2) by (auto simp: findByPID_None image_Un)
  then have ex: "filter (\<lambda>p. findByPID p (xs @ ys) \<noteq> None) L = L" by (simp add: filter_id_conv)
  have nr: "\<And>p t. p \<in> set L \<Longrightarrow> findByPID p ?T = Some t \<Longrightarrow> \<not> repeat t"
  proof -
    fix p t assume p: "p \<in> set L" and f: "findByPID p ?T = Some t"
    from f obtain u where u: "findByPID p (xs @ ys) = Some u" "t = ?f u"
      unfolding T findByPID_map[of ?f, OF pf] by auto
    then have "PID u = p" by (auto dest: findByPID_Some)
    then show "\<not> repeat t" using u(2) p by simp
  qed
  have fst: "fst (reconcile L ?T rm) = ?T" using nr by (rule reconcile_no_repeat)
  have "set (snd (reconcile L ?T rm)) = set L"
  proof
    show "set (snd (reconcile L ?T rm)) \<subseteq> set L"
      using reconcile_rm_subset[of L ?T rm] assms(2,3) by auto
    show "set L \<subseteq> set (snd (reconcile L ?T rm))"
    proof
      fix p assume p: "p \<in> set L"
      then obtain u where "findByPID p (xs @ ys) = Some u" using found by auto
      then have "findByPID p ?T = Some (?f u)" unfolding T findByPID_map[of ?f, OF pf] by simp
      from reconcile_removes[OF p this] nr[OF p this]
      show "p \<in> set (snd (reconcile L ?T rm))" by simp
    qed
  qed
  moreover have d: "distinct (map PID ?T)" using assms(1) by simp
  ultimately have "commitRemovals (snd (reconcile L ?T rm)) (fst (reconcile L ?T rm))
                     = filter (\<lambda>t. PID t \<notin> set L) ?T"
    using fst by (simp add: commitRemovals_filter)
  also have "\<dots> = filter (\<lambda>t. PID t \<notin> set L) (map ?f xs) @ filter (\<lambda>t. PID t \<notin> set L) (map ?f ys)"
    unfolding T by simp
  also have "filter (\<lambda>t. PID t \<notin> set L) (map ?f xs) = []"
    using assms(2) by (auto simp: filter_empty_conv)
  also have "filter (\<lambda>t. PID t \<notin> set L) (map ?f ys) = ys"
  proof -
    have "\<forall>t\<in>set ys. PID t \<notin> set L" using assms(1,2) by auto
    then have "map ?f ys = ys" by (intro map_idI) simp
    then show ?thesis using \<open>\<forall>t\<in>set ys. PID t \<notin> set L\<close> by (simp add: filter_id_conv)
  qed
  finally show ?thesis unfolding ex by simp
qed

subsection \<open>Dispatch up to the stopping action\<close>

lemma dispatch_append:
  "dispatch (pre @ rest) s =
     (case dispatch pre s of Some (None, sm) \<Rightarrow> dispatch rest sm | r \<Rightarrow> r)"
proof (induction pre arbitrary: s)
  case Nil
  then show ?case by simp
next
  case (Cons p pre)
  show ?case
  proof (cases "getTaskActionByPID p s")
    case None
    then show ?thesis using Cons.IH[of s] by simp
  next
    case (Some a)
    show ?thesis
    proof (cases "run_action p a s")
      case None
      then show ?thesis using Some by simp
    next
      case (Some s1)
      then show ?thesis using \<open>getTaskActionByPID p s = Some a\<close> Cons.IH[of s1] by simp
    qed
  qed
qed

lemma dispatch_None_extends:
  "dispatch ps s = Some (None, s') \<Longrightarrow> inLoop s \<Longrightarrow> extends s s'"
proof (induction ps arbitrary: s)
  case Nil
  then show ?case by (simp add: extends_refl)
next
  case (Cons p ps)
  show ?case
  proof (cases "getTaskActionByPID p s")
    case None
    then show ?thesis using Cons by simp
  next
    case (Some a)
    obtain s1 where r: "run_action p a s = Some s1" using run_action_total by blast
    have e1: "extends s s1" using run_action_extends[OF r Cons.prems(2)] by simp
    then have i1: "inLoop s1" using Cons.prems(2) by (simp add: extends_def)
    have "\<not> will_stop s1" "dispatch ps s1 = Some (None, s')"
      using Cons.prems(1) Some r by (auto split: if_splits)
    from Cons.IH[OF this(2) i1] e1 show ?thesis by (rule extends_trans[rotated])
  qed
qed

lemma onExecute_seqActivate [simp]: "onExecute (seqActivate b t) = onExecute t"
  by (simp add: seqActivate_def repairCondition_def setExecutionTime_def Let_def)

subsection \<open>What the add family stores\<close>

lemma addTimedTask_stores:
  assumes "length (tasks s) < MAX_TASKS"
  shows "\<exists>p s'. addTimedTask a d r i s = Some (p, s') \<and> p \<noteq> 0
           \<and> tasks s' = tasks s @ [freshTask p a (r \<and> \<not> sequentialMode s) i (Some AlwaysTrue) 0 d]"
proof -
  define s1 where "s1 = (if sequentialMode s \<and> r then s\<lparr>logged := logged s @ [WarnRepeatSequential]\<rparr> else s)"
  have l: "length (tasks s1) < MAX_TASKS" "tasks s1 = tasks s" using assms by (auto simp: s1_def)
  from pushTask_total[OF l(1)] l show ?thesis
    by (simp add: addTimedTask_def taskCount_def Let_def freshTask_def flip: s1_def) fastforce
qed

lemma addConditionalTask_stores:
  assumes "length (tasks s) < MAX_TASKS"
  shows "\<exists>p s'. addConditionalTask a c w s = Some (p, s') \<and> p \<noteq> 0
           \<and> tasks s' = tasks s @ [freshTask p a False 0 c w 0]"
  using pushTask_total[OF assms] assms
  by (simp add: addConditionalTask_def taskCount_def freshTask_def) fastforce

lemma addConditionalTimedTask_stores:
  assumes "length (tasks s) < MAX_TASKS"
  shows "\<exists>p s'. addConditionalTimedTask a c d w s = Some (p, s') \<and> p \<noteq> 0
           \<and> tasks s' = tasks s @ [freshTask p a False 0 c w d]"
  using pushTask_total[OF assms] assms
  by (simp add: addConditionalTimedTask_def taskCount_def freshTask_def) fastforce

subsection \<open>Ticks in which no task is added\<close>

lemma exec_cmd_noadd:
  assumes "\<not> is_add c" "inLoop s" "exec_cmd c s = Some s'"
  shows "tasks s' = tasks s \<and> inLoop s'"
proof (cases c)
  case (RemoveTask p)
  then show ?thesis using assms by (auto simp: exec_cmd_def removeTask_def split: option.splits)
next
  case (SetRepeatingTaskInterval p iv)
  then show ?thesis using assms by (auto simp: exec_cmd_def setRepeatingTaskInterval_def)
next
  case (SetAndStartSequentialMode b n)
  then show ?thesis using assms by (auto simp: exec_cmd_def setAndStartSequentialMode_def)
qed (use assms in \<open>auto simp: exec_cmd_def hold_def resume_def stop_def\<close>)

lemma exec_cmds_noadd:
  "list_all (\<lambda>c. \<not> is_add c) cs \<Longrightarrow> inLoop s \<Longrightarrow> exec_cmds cs s = Some s' \<Longrightarrow>
   tasks s' = tasks s \<and> inLoop s'"
proof (induction cs arbitrary: s)
  case Nil
  then show ?case by simp
next
  case (Cons c cs)
  from Cons.prems obtain s1 where s1: "exec_cmd c s = Some s1" "exec_cmds cs s1 = Some s'"
    by (auto split: option.splits)
  have c: "\<not> is_add c" "list_all (\<lambda>c. \<not> is_add c) cs" using Cons.prems(1) by simp_all
  have a: "tasks s1 = tasks s" "inLoop s1" using exec_cmd_noadd[OF c(1) Cons.prems(2) s1(1)] by simp_all
  from Cons.IH[OF c(2) a(2) s1(2)] a(1) show ?case by simp
qed

lemma run_action_noadd:
  assumes "no_adds a" "inLoop s" "run_action p a s = Some s'"
  shows "tasks s' = tasks s \<and> inLoop s'"
proof -
  have i: "inLoop (s\<lparr>trace := trace s @ [(p, a)]\<rparr>)" using assms(2) by simp
  have l: "list_all (\<lambda>c. \<not> is_add c) (cmds a)" using assms(1) by (simp add: no_adds_def)
  have e: "exec_cmds (cmds a) (s\<lparr>trace := trace s @ [(p, a)]\<rparr>) = Some s'"
    using assms(3) by (simp add: run_action_def)
  from exec_cmds_noadd[OF l i e] show ?thesis by simp
qed

lemma dispatch_noadd:
  assumes "inLoop s" "\<forall>t\<in>set (tasks s). no_adds (onExecute t)" "dispatch ps s = Some (st, s')"
  shows "map PID (tasks s') = map PID (tasks s)"
  using assms
proof (induction ps arbitrary: s)
  case Nil
  then show ?case by simp
next
  case (Cons p ps)
  show ?case
  proof (cases "findByPID p (tasks s)")
    case None
    then have "dispatch ps s = Some (st, s')" using Cons.prems(3) by (simp add: getTaskActionByPID_def)
    from Cons.IH[OF Cons.prems(1,2) this] show ?thesis .
  next
    case (Some t)
    then have "t \<in> set (tasks s)" by (auto dest: findByPID_Some)
    then have na: "no_adds (onExecute t)" using Cons.prems(2) by simp
    obtain s1 where r: "run_action p (onExecute t) s = Some s1" using run_action_total by blast
    have a: "tasks s1 = tasks s" "inLoop s1" using run_action_noadd[OF na Cons.prems(1) r] by simp_all
    show ?thesis
    proof (cases "will_stop s1")
      case True
      then have "s' = snd (stopInside s1)"
        using Cons.prems(3) Some r by (simp add: getTaskActionByPID_def)
      then show ?thesis using a(1) by (simp add: stopInside_def)
    next
      case False
      then have d: "dispatch ps s1 = Some (st, s')"
        using Cons.prems(3) Some r by (simp add: getTaskActionByPID_def)
      have "\<forall>t\<in>set (tasks s1). no_adds (onExecute t)" using Cons.prems(2) a(1) by simp
      from Cons.IH[OF a(2) this d] a(1) show ?thesis by simp
    qed
  qed
qed

lemma set_eraseByPID: "set (eraseByPID p ts) \<subseteq> set ts"
  by (induction ts) auto

lemma set_fold_eraseByPID: "set (fold eraseByPID ps ts) \<subseteq> set ts"
proof (induction ps arbitrary: ts)
  case Nil
  then show ?case by simp
next
  case (Cons p ps)
  have "set (fold eraseByPID ps (eraseByPID p ts)) \<subseteq> set (eraseByPID p ts)" by (rule Cons.IH)
  then show ?case using set_eraseByPID[of p ts] by auto
qed

lemma parallelLoop_noadd:
  assumes "inLoop s" "\<forall>t\<in>set (tasks s). no_adds (onExecute t)"
  shows "\<exists>s' F. parallelLoop now pv s = Some s' \<and> PID ` set (tasks s') \<subseteq> PID ` set (tasks s)
           \<and> fired s' = fired s @ F \<and> set F \<subseteq> PID ` set (tasks s)"
proof -
  let ?ex = "execPIDs now pv (tasks s)" and ?rm = "removePIDs now pv (tasks s)"
  let ?s0 = "afterPasses now pv s"
  have i0: "inLoop ?s0" using assms(1) by (simp add: afterPasses_def)
  have n0: "\<forall>t\<in>set (tasks ?s0). no_adds (onExecute t)"
    using assms(2) by (auto simp: afterPasses_def classified_def activated_def)
  have m0: "map PID (tasks ?s0) = map PID (tasks s)" by (simp add: afterPasses_def)
  obtain st s1 where d: "dispatch ?ex ?s0 = Some (st, s1)"
    using dispatch_total by (metis surj_pair)
  have m1: "map PID (tasks s1) = map PID (tasks s)" using dispatch_noadd[OF i0 n0 d] m0 by simp
  let ?ps = "case st of None \<Rightarrow> ?ex | Some ps \<Rightarrow> ps"
  obtain ts' rm' where r: "reconcile ?ps (tasks s1) ?rm = (ts', rm')" by (metis surj_pair)
  have "map PID ts' = map PID (tasks s)"
    using map_PID_reconcile[of ?ps "tasks s1" ?rm] r m1 by simp
  from arg_cong[OF this, of set] have p': "PID ` set ts' = PID ` set (tasks s)"
    by (simp only: set_map)
  have "set (commitRemovals rm' ts') \<subseteq> set ts'"
    unfolding commitRemovals_def by (rule set_fold_eraseByPID)
  then have sub: "PID ` set (commitRemovals rm' ts') \<subseteq> PID ` set (tasks s)"
    using p' by blast
  obtain F where F: "fired s1 = fired ?s0 @ F" "set F \<subseteq> set ?ex"
    using dispatch_fired[OF d] by blast
  have "fired s1 = fired s @ F" using F(1) by (simp add: afterPasses_def fired_def)
  moreover have "set F \<subseteq> PID ` set (tasks s)"
    using F(2) execPIDs_subset[of now pv "tasks s"] by blast
  ultimately show ?thesis using parallelLoop_unfold[OF d r] sub by (simp add: fired_def)
qed

lemma sequentialLoop_noadd:
  assumes "inLoop s" "\<forall>t\<in>set (tasks s). no_adds (onExecute t)"
  shows "\<exists>s' F. sequentialLoop now pv s = Some s' \<and> PID ` set (tasks s') \<subseteq> PID ` set (tasks s)
           \<and> fired s' = fired s @ F \<and> set F \<subseteq> PID ` set (tasks s)"
proof (cases "tasks s")
  case Nil
  then show ?thesis by (simp add: sequentialLoop_def)
next
  case (Cons t0 rest)
  define t where "t = seqActivate (lastSequentialFinishTime s) t0"
  consider (rm) "expired now pv t" | (ex) "due now t" | (wait) "\<not> expired now pv t" "\<not> due now t"
    by blast
  then show ?thesis
  proof cases
    case rm
    have "sequentialLoop now pv s
            = Some (s\<lparr>tasks := eraseByPID (PID t0) (tasks s), lastSequentialFinishTime := now\<rparr>)"
      using sequentialLoop_remove[OF Cons t_def rm] .
    then show ?thesis using set_eraseByPID[of "PID t0" "tasks s"] by (auto simp: fired_def)
  next
    case ex
    have na: "no_adds (onExecute t)" using assms(2) Cons by (simp add: t_def)
    obtain s1 where r: "run_action (PID t0) (onExecute t) s = Some s1"
      using run_action_total by blast
    have a: "tasks s1 = tasks s" using run_action_noadd[OF na assms(1) r] by simp
    have f: "fired s1 = fired s @ [PID t0]" using fired_run_action[OF r] .
    have pin: "PID t0 \<in> PID ` set (tasks s)" using Cons by simp
    show ?thesis
    proof (cases "will_stop s1")
      case True
      then have "sequentialLoop now pv s
            = Some (s1\<lparr>will_stop := False, tasks := fold eraseByPID (tasksToRemove s1) (tasks s1),
                        tasksToRemove := [], lastSequentialFinishTime := now\<rparr>)"
        using sequentialLoop_execute[OF Cons t_def ex, of pv] r by simp
      moreover have "PID ` set (fold eraseByPID (tasksToRemove s1) (tasks s1)) \<subseteq> PID ` set (tasks s)"
        using set_fold_eraseByPID[of "tasksToRemove s1" "tasks s1"] a by auto
      ultimately show ?thesis using f pin by (simp add: fired_def)
    next
      case False
      then have "sequentialLoop now pv s
            = Some (s1\<lparr>tasks := eraseByPID (PID t0) (tasks s1), lastSequentialFinishTime := now\<rparr>)"
        using sequentialLoop_execute[OF Cons t_def ex, of pv] r by simp
      moreover have "PID ` set (eraseByPID (PID t0) (tasks s1)) \<subseteq> PID ` set (tasks s)"
        using set_eraseByPID[of "PID t0" "tasks s1"] a by auto
      ultimately show ?thesis using f pin by (simp add: fired_def)
    qed
  next
    case wait
    have pt: "PID (meetCondition now pv t) = PID t0" by (simp add: t_def)
    have "map PID (modifyTaskByPID (PID t0) (meetCondition now pv t) (tasks s)) = map PID (tasks s)"
      using pt by (rule map_PID_modifyTaskByPID)
    from arg_cong[OF this, of set]
    have m: "PID ` set (modifyTaskByPID (PID t0) (meetCondition now pv t) (tasks s)) = PID ` set (tasks s)"
      by (simp only: set_map)
    have "sequentialLoop now pv s
            = Some (s\<lparr>tasks := modifyTaskByPID (PID t0) (meetCondition now pv t) (tasks s)\<rparr>)
          \<or> sequentialLoop now pv s = Some s"
      using sequentialLoop_wait[OF Cons t_def wait] by simp
    then show ?thesis using m by (auto simp: fired_def)
  qed
qed

lemma loop_noadd:
  assumes "store_ok s" "\<not> onHold s" "\<forall>t\<in>set (tasks s). no_adds (onExecute t)"
  shows "\<exists>s' F. loop now pv s = Some s'
           \<and> PID ` set (tasks s') \<subseteq> PID ` set (tasks s) - set (tasksToRemove s)
           \<and> fired s' = fired s @ F \<and> set F \<subseteq> PID ` set (tasks s) - set (tasksToRemove s)"
proof (cases "tasks s = []")
  case True
  then show ?thesis by (simp add: loop_def)
next
  case False
  note ne = this
  have flt: "PID ` set (filter (\<lambda>t. PID t \<notin> set (tasksToRemove s)) (tasks s))
               \<subseteq> PID ` set (tasks s) - set (tasksToRemove s)" by auto
  show ?thesis
  proof (cases "will_stop s")
    case True
    have "loop now pv s = Some (clearMarkedForRemoval (s\<lparr>will_stop := False\<rparr>))"
      using ne assms(2) True by (simp add: loop_def)
    moreover have "tasks (clearMarkedForRemoval (s\<lparr>will_stop := False\<rparr>))
                     = filter (\<lambda>t. PID t \<notin> set (tasksToRemove s)) (tasks s)"
      using assms(1)
      by (simp add: clearMarkedForRemoval_def fold_eraseByPID_filter store_ok_def pids_ok_def)
    ultimately show ?thesis using flt by (simp add: fired_def clearMarkedForRemoval_def)
  next
    case False
    let ?s0 = "enterLoop s"
    have t0: "tasks ?s0 = filter (\<lambda>t. PID t \<notin> set (tasksToRemove s)) (tasks s)"
      using assms(1) by (rule tasks_enterLoop)
    have i0: "inLoop ?s0" by simp
    have n0: "\<forall>t\<in>set (tasks ?s0). no_adds (onExecute t)" using assms(3) by (simp add: t0)
    have sub0: "PID ` set (tasks ?s0) \<subseteq> PID ` set (tasks s) - set (tasksToRemove s)"
      unfolding t0 by (rule flt)
    obtain r F where r: "(if sequentialMode s then sequentialLoop now pv ?s0
                          else parallelLoop now pv ?s0) = Some r"
      "PID ` set (tasks r) \<subseteq> PID ` set (tasks ?s0)" "fired r = fired ?s0 @ F"
      "set F \<subseteq> PID ` set (tasks ?s0)"
      using parallelLoop_noadd[OF i0 n0, of now pv] sequentialLoop_noadd[OF i0 n0, of now pv]
      by (cases "sequentialMode s") auto
    have lp: "loop now pv s = Some (r\<lparr>inLoop := False\<rparr>)"
      using ne assms(2) False r(1) by (simp add: loop_def split: if_splits)
    have s1: "PID ` set (tasks r) \<subseteq> PID ` set (tasks s) - set (tasksToRemove s)"
      using r(2) sub0 by (rule subset_trans)
    have s2: "set F \<subseteq> PID ` set (tasks s) - set (tasksToRemove s)"
      using r(4) sub0 by (rule subset_trans)
    have f: "fired (r\<lparr>inLoop := False\<rparr>) = fired s @ F" using r(3) by (simp add: fired_def)
    show ?thesis
      by (intro exI[of _ "r\<lparr>inLoop := False\<rparr>"] exI[of _ F]) (simp add: lp s1 s2 f)
  qed
qed

section \<open>Claims\<close>

text \<open>
  C8.  Whenever the store holds fewer than 65535 tasks (the add family calls the allocator
  only below 124), \<open>getAndIncrementPID\<close> returns, and the PID it returns is nonzero and
  differs from the PID of every task in the store.  Consequently every call sequence of
  the driver, started on a new scheduler, returns and leaves a store whose PIDs are
  pairwise distinct and nonzero.
\<close>

theorem pid_allocation_unique:
  "(length (tasks s) < 65535 \<longrightarrow>
      (\<exists>p. getAndIncrementPID s = Some (p, s\<lparr>nextPID := p + 1\<rparr>)
           \<and> p \<noteq> 0 \<and> p \<notin> PID ` set (tasks s)))
   \<and> (\<exists>s'. run ops init = Some s' \<and> distinct (map PID (tasks s')) \<and> 0 \<notin> PID ` set (tasks s')
             \<and> (\<exists>p. getAndIncrementPID s' = Some (p, s'\<lparr>nextPID := p + 1\<rparr>)
                   \<and> p \<noteq> 0 \<and> p \<notin> PID ` set (tasks s')))"
proof -
  obtain s' where r: "run ops init = Some s'" using run_total by blast
  have ok: "pids_ok (tasks s')" using run_store_ok[OF r store_ok_init] by (simp add: store_ok_def)
  then have "length (tasks s') < 65535" by (simp add: pids_ok_def MAX_TASKS_def)
  from getAndIncrementPID_total[OF this] show ?thesis
    using r ok getAndIncrementPID_total[of s] by (auto simp: pids_ok_def)
qed

theorem pid_allocation_unique_witness:
  "(\<exists>p. getAndIncrementPID (init\<lparr>tasks := [freshTask 1 (Action 0 []) False 0 (Some AlwaysTrue) 0 5]\<rparr>)
          = Some (p, init\<lparr>tasks := [freshTask 1 (Action 0 []) False 0 (Some AlwaysTrue) 0 5],
                          nextPID := p + 1\<rparr>)
        \<and> p \<noteq> 0 \<and> p \<noteq> 1)
   \<and> (\<exists>s'. run [Call (AddTimedTask (Action 0 []) 5 False 0),
                 Call (AddTimedTask (Action 1 []) 7 False 0)] init = Some s'
         \<and> distinct (map PID (tasks s')) \<and> 0 \<notin> PID ` set (tasks s'))"
  using pid_allocation_unique
    [of "init\<lparr>tasks := [freshTask 1 (Action 0 []) False 0 (Some AlwaysTrue) 0 5]\<rparr>"
        "[Call (AddTimedTask (Action 0 []) 5 False 0), Call (AddTimedTask (Action 1 []) 7 False 0)]"]
  by (auto simp: freshTask_def)

text \<open>
  C9.  Every call sequence of the driver leaves at most 124 tasks in the store; and a
  call of \<open>addTimedTask\<close>, \<open>addConditionalTask\<close> or \<open>addConditionalTimedTask\<close> on a store of
  124 or more tasks returns PID 0 and leaves the store as it was.
\<close>

theorem capacity_bound:
  "(\<exists>s'. run ops init = Some s' \<and> taskCount s' \<le> 124)
   \<and> (124 \<le> taskCount s \<longrightarrow>
        (\<exists>s'. addTimedTask a d r i s = Some (0, s') \<and> tasks s' = tasks s)
      \<and> (\<exists>s'. addConditionalTask a c w s = Some (0, s') \<and> tasks s' = tasks s)
      \<and> (\<exists>s'. addConditionalTimedTask a c d w s = Some (0, s') \<and> tasks s' = tasks s))"
proof -
  obtain s' where r: "run ops init = Some s'" using run_total by blast
  have "pids_ok (tasks s')" using run_store_ok[OF r store_ok_init] by (simp add: store_ok_def)
  then have "taskCount s' \<le> 124" by (simp add: pids_ok_def MAX_TASKS_def taskCount_def)
  then show ?thesis using r
    by (auto simp: addTimedTask_def addConditionalTask_def addConditionalTimedTask_def
                   taskCount_def MAX_TASKS_def Let_def)
qed

theorem capacity_bound_witness:
  "(\<exists>s'. run [Call (AddTimedTask (Action 0 []) 5 False 0)] init = Some s' \<and> taskCount s' \<le> 124)
   \<and> (\<exists>s'. addTimedTask (Action 1 []) 5 True 9
              (init\<lparr>tasks := replicate 124 (freshTask 1 (Action 0 []) False 0 None 0 0)\<rparr>) = Some (0, s')
            \<and> tasks s' = replicate 124 (freshTask 1 (Action 0 []) False 0 None 0 0))
   \<and> (\<exists>s'. addConditionalTask (Action 1 []) (Some (Pred 0)) 300
              (init\<lparr>tasks := replicate 124 (freshTask 1 (Action 0 []) False 0 None 0 0)\<rparr>) = Some (0, s')
            \<and> tasks s' = replicate 124 (freshTask 1 (Action 0 []) False 0 None 0 0))
   \<and> (\<exists>s'. addConditionalTimedTask (Action 1 []) (Some (Pred 0)) 5 300
              (init\<lparr>tasks := replicate 124 (freshTask 1 (Action 0 []) False 0 None 0 0)\<rparr>) = Some (0, s')
            \<and> tasks s' = replicate 124 (freshTask 1 (Action 0 []) False 0 None 0 0))"
  using capacity_bound[of "[Call (AddTimedTask (Action 0 []) 5 False 0)]"
      "init\<lparr>tasks := replicate 124 (freshTask 1 (Action 0 []) False 0 None 0 0)\<rparr>"
      "Action 1 []" 5 True 9 "Some (Pred 0)" 300]
  by (simp add: taskCount_def)

text \<open>
  C6 (the code departs from the claim).  \<open>removeTask\<close> does not look at \<open>inLoop\<close>: called
  with the flag set on a PID that is in the store, it returns true, appends the PID to
  the removal ledger and logs nothing.  The same happens when an action dispatched by
  \<open>loop\<close> calls it: after the tick the ledger holds the PID and the log is empty.
\<close>

theorem removeTask_in_loop_accepted:
  "removeTask 1 (init\<lparr>tasks := [freshTask 1 (Action 0 []) False 0 (Some AlwaysTrue) 0 5],
                       inLoop := True\<rparr>)
     = (True, init\<lparr>tasks := [freshTask 1 (Action 0 []) False 0 (Some AlwaysTrue) 0 5],
                    inLoop := True, tasksToRemove := [1]\<rparr>)
   \<and> map_option tasksToRemove
        (run [Call (AddTimedTask (Action 0 [RemoveTask 2]) 0 False 0),
              Call (AddTimedTask (Action 1 []) 1000 False 0),
              Loop 5 never] init) = Some [2]
   \<and> map_option logged
        (run [Call (AddTimedTask (Action 0 [RemoveTask 2]) 0 False 0),
              Call (AddTimedTask (Action 1 []) 1000 False 0),
              Loop 5 never] init) = Some []"
  by code_simp

text \<open>
  C7 (the code departs from the claim).  \<open>setAndStartSequentialMode\<close> leaves the tasks as
  they are: a repeating task added in parallel mode keeps \<open>repeat = true\<close> after the
  switch to sequential mode.
\<close>

theorem repeat_survives_mode_switch:
  "map_option sequentialMode
     (run [Call (AddTimedTask (Action 0 []) 100 True 250),
           Call (SetAndStartSequentialMode True 0)] init) = Some True
   \<and> map_option (map repeat \<circ> tasks)
     (run [Call (AddTimedTask (Action 0 []) 100 True 250),
           Call (SetAndStartSequentialMode True 0)] init) = Some [True]"
  by code_simp

text \<open>
  C3 (amended).  Sequential mode, tasks a (delay 100), b (delay 50), c (delay 200) added
  at time 1000, \<open>loop\<close> called at 1000, 1100, 1150 and 1350.  The delay of a timed task
  is counted from the \<open>loop\<close> call in which the task first is the head of the store:
  a is activated at 1000 and fires at the 1100 call (\<open>lastSequentialFinishTime\<close> 1100);
  b is activated at the 1150 call with \<open>executeAt\<close> 1200 and fires at the 1350 call
  (\<open>lastSequentialFinishTime\<close> 1350); c has not fired after the four calls and is the
  only task left, not yet activated.  The actions fire in insertion order.
\<close>

theorem sequential_scenario:
  "map_option seqView
     (run [Call (SetAndStartSequentialMode True 1000),
           Call (AddTimedTask (Action la []) 100 False 0),
           Call (AddTimedTask (Action lb []) 50 False 0),
           Call (AddTimedTask (Action lc []) 200 False 0),
           Loop 1000 pv] init)
     = Some ([], 1000, [(1, 1100), (2, 0), (3, 0)])
   \<and> map_option seqView
     (run [Call (SetAndStartSequentialMode True 1000),
           Call (AddTimedTask (Action la []) 100 False 0),
           Call (AddTimedTask (Action lb []) 50 False 0),
           Call (AddTimedTask (Action lc []) 200 False 0),
           Loop 1000 pv, Loop 1100 pv] init)
     = Some ([1], 1100, [(2, 0), (3, 0)])
   \<and> map_option seqView
     (run [Call (SetAndStartSequentialMode True 1000),
           Call (AddTimedTask (Action la []) 100 False 0),
           Call (AddTimedTask (Action lb []) 50 False 0),
           Call (AddTimedTask (Action lc []) 200 False 0),
           Loop 1000 pv, Loop 1100 pv, Loop 1150 pv] init)
     = Some ([1], 1100, [(2, 1200), (3, 0)])
   \<and> map_option seqView
     (run [Call (SetAndStartSequentialMode True 1000),
           Call (AddTimedTask (Action la []) 100 False 0),
           Call (AddTimedTask (Action lb []) 50 False 0),
           Call (AddTimedTask (Action lc []) 200 False 0),
           Loop 1000 pv, Loop 1100 pv, Loop 1150 pv, Loop 1350 pv] init)
     = Some ([1, 2], 1350, [(3, 0)])"
  by code_simp

theorem sequential_scenario_counterexample:
  "map_option seqView
     (run [Call (SetAndStartSequentialMode True 1000),
           Call (AddTimedTask (Action 0 []) 100 False 0),
           Call (AddTimedTask (Action 1 []) 50 False 0),
           Call (AddTimedTask (Action 2 []) 200 False 0),
           Loop 1000 never, Loop 1100 never, Loop 1150 never] init)
   = Some ([1], 1100, [(2, 1200), (3, 0)])"
  by code_simp

text \<open>
  C5 (amended).  \<open>stop\<close> is called outside \<open>loop\<close> on a well-formed scheduler whose ledger
  names only stored PIDs; then tasks are added; then \<open>loop\<close> is called, not on hold and
  with a non-empty store.  That call removes exactly the tasks that were in the store
  when \<open>stop\<close> was called, keeps every task added after the \<open>stop\<close> call, invokes no
  action, and clears \<open>will_stop\<close> and the ledger.
\<close>

theorem stop_outside_loop:
  assumes "store_ok s" "ledger_ok s" "\<not> onHold s" "list_all is_add cs"
    and "exec_cmds cs (stop s) = Some s2" "tasks s2 \<noteq> []"
  shows "\<exists>s3. loop now pv s2 = Some s3
           \<and> take (length (tasks s)) (tasks s2) = tasks s
           \<and> tasks s3 = drop (length (tasks s)) (tasks s2)
           \<and> trace s3 = trace s \<and> \<not> will_stop s3 \<and> tasksToRemove s3 = []"
proof -
  from adds_only[OF assms(4), of "stop s"] assms(5)
  obtain new where n: "tasks s2 = tasks (stop s) @ new"
    "pids_ok (tasks (stop s)) \<longrightarrow> pids_ok (tasks s2)"
    "will_stop s2 = will_stop (stop s)" "tasksToRemove s2 = tasksToRemove (stop s)"
    "onHold s2 = onHold (stop s)" "trace s2 = trace (stop s)"
    by auto
  have t2: "tasks s2 = tasks s @ new" using n(1) by (simp add: stop_def)
  have ok2: "pids_ok (tasks s2)" using n(2) assms(1) by (simp add: stop_def store_ok_def)
  then have d: "distinct (map PID (tasks s @ new))" using t2 by (simp add: pids_ok_def)
  have l: "tasksToRemove s2 = tasksToRemove s @ map PID (tasks s)" using n(4) by (simp add: stop_def)
  have "set (tasksToRemove s2) = PID ` set (tasks s)"
    using l assms(2) by (auto simp: ledger_ok_def)
  then have "set (tasksToRemove s2) \<inter> PID ` set (tasks s @ new) = PID ` set (tasks s)" by auto
  from filter_prefix_out[OF d this]
  have f: "fold eraseByPID (tasksToRemove s2) (tasks s2) = new"
    using d t2 by (simp add: fold_eraseByPID_filter)
  have "loop now pv s2 = Some (clearMarkedForRemoval (s2\<lparr>will_stop := False\<rparr>))"
    using assms(3,6) n(3,5) by (simp add: loop_def stop_def)
  then show ?thesis using f t2 n(6)
    by (simp add: clearMarkedForRemoval_def stop_def)
qed

theorem stop_outside_loop_witness:
  "\<exists>s3. loop 5 never
           (init\<lparr>tasks := [freshTask 1 (Action 0 []) False 0 (Some AlwaysTrue) 0 100,
                            freshTask 2 (Action 1 []) False 0 (Some AlwaysTrue) 0 100],
                  will_stop := True, tasksToRemove := [1], nextPID := 3\<rparr>) = Some s3
         \<and> tasks s3 = [freshTask 2 (Action 1 []) False 0 (Some AlwaysTrue) 0 100]
         \<and> trace s3 = [] \<and> \<not> will_stop s3 \<and> tasksToRemove s3 = []"
proof -
  have a: "store_ok (init\<lparr>tasks := [freshTask 1 (Action 0 []) False 0 (Some AlwaysTrue) 0 100]\<rparr>)"
    by (simp add: store_ok_def pids_ok_def freshTask_def MAX_TASKS_def)
  have b: "ledger_ok (init\<lparr>tasks := [freshTask 1 (Action 0 []) False 0 (Some AlwaysTrue) 0 100]\<rparr>)"
    by (simp add: ledger_ok_def init_def)
  have c: "\<not> onHold (init\<lparr>tasks := [freshTask 1 (Action 0 []) False 0 (Some AlwaysTrue) 0 100]\<rparr>)"
    by (simp add: init_def)
  have d: "list_all is_add [AddTimedTask (Action 1 []) 100 False 0]" by simp
  have e: "exec_cmds [AddTimedTask (Action 1 []) 100 False 0]
             (stop (init\<lparr>tasks := [freshTask 1 (Action 0 []) False 0 (Some AlwaysTrue) 0 100]\<rparr>))
           = Some (init\<lparr>tasks := [freshTask 1 (Action 0 []) False 0 (Some AlwaysTrue) 0 100,
                            freshTask 2 (Action 1 []) False 0 (Some AlwaysTrue) 0 100],
                  will_stop := True, tasksToRemove := [1], nextPID := 3\<rparr>)"
    by code_simp
  show ?thesis
    using stop_outside_loop[OF a b c d e, of 5 never] by (simp add: init_def)
qed

theorem stop_outside_loop_counterexample:
  "map_option pids
     (run [Call (AddTimedTask (Action 0 []) 100 False 0), Call Stop,
           Call (AddTimedTask (Action 1 []) 100 False 0), Loop 5 never] init)
   = Some [2]"
  by code_simp

text \<open>
  C1 (amended).  A conditional task with a finite wait \<open>W\<close> (\<open>0 < W < 2^31\<close>) whose
  predicate is false, in a well-formed scheduler that is not on hold and has no stop and
  no removal of the task pending.  The deadline is fixed by the first \<open>loop\<close> call that
  processes the task, not by the creation time: in parallel mode that call, at time
  \<open>now\<close>, stores \<open>executeAt = now + W\<close> (1 in place of 0) and keeps the task, provided no
  dispatched action calls \<open>stop\<close>; in sequential mode the head task gets
  \<open>executeAt = lastSequentialFinishTime + W\<close>.  Once the deadline is set, a \<open>loop\<close> call at
  time \<open>now\<close> with \<open>(i32)(now - executeAt) \<ge> 0\<close> and the predicate still false removes
  the task from the store and does not run its action.
\<close>

theorem conditional_timeout:
  assumes "store_ok s" "\<not> onHold s" "\<not> will_stop s"
    and "t \<in> set (tasks s)" "PID t \<notin> set (tasksToRemove s)"
    and "condition t = Some (Pred n)" "\<not> pv n" "\<not> conditionMet t" "0 < sint (conditionWait t)"
  shows "(\<not> sequentialMode s \<and> executeAt t = 0
            \<and> (\<forall>x\<in>set (tasks s). Stop \<notin> set (cmds (onExecute x))) \<longrightarrow>
          (\<exists>s' F. loop now pv s = Some s'
             \<and> findByPID (PID t) (tasks s')
                 = Some (t\<lparr>executeAt := if now + conditionWait t = 0 then 1 else now + conditionWait t\<rparr>)
             \<and> fired s' = fired s @ F \<and> PID t \<notin> set F))
       \<and> (\<not> sequentialMode s \<and> executeAt t \<noteq> 0 \<and> 0 \<le> sint (now - executeAt t) \<longrightarrow>
          (\<exists>s' F. loop now pv s = Some s' \<and> PID t \<notin> PID ` set (tasks s')
             \<and> fired s' = fired s @ F \<and> PID t \<notin> set F))
       \<and> (sequentialMode s \<and> hd (tasks s) = t
            \<and> 0 \<le> sint (now - executeAt (seqActivate (lastSequentialFinishTime s) t)) \<longrightarrow>
          (\<exists>s'. loop now pv s = Some s' \<and> PID t \<notin> PID ` set (tasks s')
             \<and> fired s' = fired s \<and> lastSequentialFinishTime s' = now))
       \<and> (sequentialMode s \<and> hd (tasks s) = t \<and> executeAt t = 0
            \<and> \<not> 0 \<le> sint (now - executeAt (seqActivate (lastSequentialFinishTime s) t)) \<longrightarrow>
          (\<exists>s'. loop now pv s = Some s'
             \<and> hd (tasks s') = t\<lparr>executeAt := if lastSequentialFinishTime s + conditionWait t = 0 then 1
                                               else lastSequentialFinishTime s + conditionWait t\<rparr>
             \<and> fired s' = fired s))"
proof (intro conjI impI)
  have ct: "\<not> conditionTrue pv t" using assms(6,7) by (simp add: conditionTrue_def)
  have ni: "\<not> indefinite t" using assms(9) by (simp add: indefinite_def)
  have rc: "repairCondition t = t" using assms(6) by (simp add: repairCondition_def)
  {
    assume a: "\<not> sequentialMode s \<and> executeAt t = 0
                \<and> (\<forall>x\<in>set (tasks s). Stop \<notin> set (cmds (onExecute x)))"
    let ?dl = "if now + conditionWait t = 0 then 1 else now + conditionWait t"
    have act: "activate now pv t = t\<lparr>executeAt := ?dl\<rparr>"
      using a ni by (simp add: activate_def setExecutionTime_def)
    have nd: "\<not> due now (activate now pv t)" using assms(8) by (simp add: act due_def)
    have nt: "\<not> timedOut now pv (activate now pv t)"
      using not_due_at_activation[OF assms(9), of now]
      by (simp add: act timedOut_def expired_def repairCondition_def)
    have cl: "classify now pv (activate now pv t) = t\<lparr>executeAt := ?dl\<rparr>"
      using assms(6,7,8)
      by (simp add: act classify_def repairCondition_def meetCondition_def becomesTrue_def
                    conditionTrue_def)
    from loop_untouched[OF assms(1-3) _ assms(4,5) _ nd nt] a
    show "\<exists>s' F. loop now pv s = Some s'
             \<and> findByPID (PID t) (tasks s') = Some (t\<lparr>executeAt := ?dl\<rparr>)
             \<and> fired s' = fired s @ F \<and> PID t \<notin> set F"
      unfolding cl by blast
  }
  {
    assume a: "\<not> sequentialMode s \<and> executeAt t \<noteq> 0 \<and> 0 \<le> sint (now - executeAt t)"
    have act: "activate now pv t = t" using a by (simp add: activate_def)
    have "timedOut now pv (activate now pv t)"
      using a ct ni assms(8) by (simp add: act timedOut_def rc expired_def)
    from loop_timeout[OF assms(1-3) _ assms(4,5) this] a
    show "\<exists>s' F. loop now pv s = Some s' \<and> PID t \<notin> PID ` set (tasks s')
             \<and> fired s' = fired s @ F \<and> PID t \<notin> set F" by blast
  }
  let ?t1 = "seqActivate (lastSequentialFinishTime s) t"
  have t1: "?t1 = (if executeAt t = 0
                    then t\<lparr>executeAt := if lastSequentialFinishTime s + conditionWait t = 0 then 1
                                          else lastSequentialFinishTime s + conditionWait t\<rparr>
                    else t)"
    using ni by (simp add: seqActivate_def rc setExecutionTime_def)
  have t1f: "\<not> conditionMet ?t1" "\<not> conditionTrue pv ?t1" "\<not> indefinite ?t1" "PID ?t1 = PID t"
    using assms(8) ct ni by (simp_all add: t1 conditionTrue_def indefinite_def)
  {
    assume a: "sequentialMode s \<and> hd (tasks s) = t \<and> 0 \<le> sint (now - executeAt ?t1)"
    then obtain rest where ts: "tasks s = t # rest" using assms(4) by (cases "tasks s") auto
    note l = loop_sequential_head[OF assms(1-3) _ ts assms(5)]
    from l(2) a obtain rest' where e: "tasks (enterLoop s) = t # rest'" "PID t \<notin> PID ` set rest'"
      by blast
    have "expired now pv (seqActivate (lastSequentialFinishTime (enterLoop s)) t)"
      using a t1f by (simp add: expired_def)
    from sequentialLoop_remove[OF e(1) refl this]
    have "sequentialLoop now pv (enterLoop s)
            = Some ((enterLoop s)\<lparr>tasks := rest', lastSequentialFinishTime := now\<rparr>)"
      using e(1) by simp
    then show "\<exists>s'. loop now pv s = Some s' \<and> PID t \<notin> PID ` set (tasks s')
             \<and> fired s' = fired s \<and> lastSequentialFinishTime s' = now"
      using l(1)[of now pv] a e(2) by (simp add: fired_def)
  }
  {
    assume a: "sequentialMode s \<and> hd (tasks s) = t \<and> executeAt t = 0
                \<and> \<not> 0 \<le> sint (now - executeAt ?t1)"
    then obtain rest where ts: "tasks s = t # rest" using assms(4) by (cases "tasks s") auto
    note l = loop_sequential_head[OF assms(1-3) _ ts assms(5)]
    from l(2) a obtain rest' where e: "tasks (enterLoop s) = t # rest'" by blast
    have ne: "\<not> expired now pv (seqActivate (lastSequentialFinishTime (enterLoop s)) t)"
      using a by (simp add: expired_def)
    have nd: "\<not> due now (seqActivate (lastSequentialFinishTime (enterLoop s)) t)"
      using t1f by (simp add: due_def)
    have ch: "seqActivateChanged t" using a ni by (simp add: seqActivateChanged_def)
    have mc: "meetCondition now pv ?t1 = ?t1" using t1f by (simp add: meetCondition_def becomesTrue_def)
    from sequentialLoop_wait[OF e(1) refl ne nd]
    have "sequentialLoop now pv (enterLoop s) = Some ((enterLoop s)\<lparr>tasks := ?t1 # rest'\<rparr>)"
      using ch mc e(1) by simp
    then show "\<exists>s'. loop now pv s = Some s'
             \<and> hd (tasks s') = t\<lparr>executeAt := if lastSequentialFinishTime s + conditionWait t = 0 then 1
                                               else lastSequentialFinishTime s + conditionWait t\<rparr>
             \<and> fired s' = fired s"
      using l(1)[of now pv] a t1 by (simp add: fired_def)
  }
qed

theorem conditional_timeout_witness:
  "(\<exists>s' F. loop 1000 never (holding condTask) = Some s'
       \<and> findByPID 1 (tasks s') = Some (condTask\<lparr>executeAt := 1300\<rparr>)
       \<and> fired s' = F \<and> 1 \<notin> set F)
   \<and> (\<exists>s' F. loop 1300 never (holding (condTask\<lparr>executeAt := 1300\<rparr>)) = Some s'
       \<and> 1 \<notin> PID ` set (tasks s') \<and> fired s' = F \<and> 1 \<notin> set F)
   \<and> (\<exists>s'. loop 1300 never (holdingSeq condTask) = Some s' \<and> 1 \<notin> PID ` set (tasks s')
       \<and> fired s' = [] \<and> lastSequentialFinishTime s' = 1300)
   \<and> (\<exists>s'. loop 1100 never (holdingSeq condTask) = Some s'
       \<and> hd (tasks s') = condTask\<lparr>executeAt := 1300\<rparr> \<and> fired s' = [])"
proof -
  have ok: "store_ok (holding t)" "\<not> onHold (holding t)" "\<not> will_stop (holding t)"
    "t \<in> set (tasks (holding t))" "PID t \<notin> set (tasksToRemove (holding t))"
    "store_ok (holdingSeq t)" "\<not> onHold (holdingSeq t)" "\<not> will_stop (holdingSeq t)"
    "t \<in> set (tasks (holdingSeq t))" "PID t \<notin> set (tasksToRemove (holdingSeq t))"
    if "PID t \<noteq> 0" for t
    using that by (simp_all add: holding_def holdingSeq_def init_def store_ok_def pids_ok_def MAX_TASKS_def)
  have c: "condition condTask = Some (Pred 0)" "\<not> never 0" "\<not> conditionMet condTask"
    "0 < sint (conditionWait condTask)" "PID condTask \<noteq> 0"
    by (simp_all add: condTask_def freshTask_def never_def)
  have c': "condition (condTask\<lparr>executeAt := 1300\<rparr>) = Some (Pred 0)"
    "\<not> conditionMet (condTask\<lparr>executeAt := 1300\<rparr>)"
    "0 < sint (conditionWait (condTask\<lparr>executeAt := 1300\<rparr>))" "PID (condTask\<lparr>executeAt := 1300\<rparr>) \<noteq> 0"
    by (simp_all add: condTask_def freshTask_def)
  have a: "\<exists>s' F. loop 1000 never (holding condTask) = Some s'
       \<and> findByPID 1 (tasks s') = Some (condTask\<lparr>executeAt := 1300\<rparr>)
       \<and> fired s' = F \<and> 1 \<notin> set F"
    using conditional_timeout[where pv = never and n = 0 and now = 1000, OF ok(1-5)[OF c(5)] c(1-4)]
    by (simp add: holding_def init_def condTask_def freshTask_def fired_def)
  have b: "\<exists>s' F. loop 1300 never (holding (condTask\<lparr>executeAt := 1300\<rparr>)) = Some s'
       \<and> 1 \<notin> PID ` set (tasks s') \<and> fired s' = F \<and> 1 \<notin> set F"
    using conditional_timeout[where pv = never and n = 0 and now = 1300, OF ok(1-5)[OF c'(4)] c'(1) c(2) c'(2,3)]
    by (simp add: holding_def init_def condTask_def freshTask_def fired_def)
  have d: "\<exists>s'. loop 1300 never (holdingSeq condTask) = Some s' \<and> 1 \<notin> PID ` set (tasks s')
       \<and> fired s' = [] \<and> lastSequentialFinishTime s' = 1300"
    using conditional_timeout[where pv = never and n = 0 and now = 1300, OF ok(6-10)[OF c(5)] c(1-4)]
    by (simp add: holdingSeq_def init_def condTask_def freshTask_def fired_def seqActivate_def
                  repairCondition_def indefinite_def setExecutionTime_def)
  have e: "\<exists>s'. loop 1100 never (holdingSeq condTask) = Some s'
       \<and> hd (tasks s') = condTask\<lparr>executeAt := 1300\<rparr> \<and> fired s' = []"
    using conditional_timeout[where pv = never and n = 0 and now = 1100, OF ok(6-10)[OF c(5)] c(1-4)]
    by (simp add: holdingSeq_def init_def condTask_def freshTask_def fired_def seqActivate_def
                  repairCondition_def indefinite_def setExecutionTime_def)
  show ?thesis using a b d e by blast
qed

theorem conditional_timeout_counterexample:
  "(0::int) \<le> sint ((1300::u32) - (1000 + 300))
   \<and> map_option pids
        (run [Call (AddConditionalTask (Action 0 []) (Some (Pred 0)) 300),
              Loop 1300 never] init) = Some [1]
   \<and> map_option deadlines
        (run [Call (AddConditionalTask (Action 0 []) (Some (Pred 0)) 300),
              Loop 1300 never] init) = Some [(1, 1600)]"
  by code_simp

text \<open>
  C2 (amended).  A non-repeating timed task (delay \<open>D\<close>) in parallel mode, in a
  well-formed scheduler that is not on hold, has no stop and no removal of the task
  pending, and in which no stored action calls \<open>stop\<close>.  With \<open>0 < D < 2^31\<close>, the first
  \<open>loop\<close> call, at time \<open>T\<close>, marks the condition met and sets \<open>executeAt\<close> to \<open>T + D\<close>
  modulo \<open>2^32\<close>, except that 1 is stored when that sum is 0; the action does not run in
  that call.  With \<open>D = 0\<close> and \<open>T \<noteq> 0\<close> the action runs in the activating call itself.
  Afterwards a \<open>loop\<close> call with \<open>(i32)(now - executeAt) < 0\<close> leaves the task as it is and
  does not run it, and a \<open>loop\<close> call with \<open>(i32)(now - executeAt) \<ge> 0\<close> runs the action
  exactly once and removes the task from the store by the end of the call.
\<close>

theorem timed_task_fires_once:
  assumes "store_ok s" "\<not> onHold s" "\<not> will_stop s" "\<not> sequentialMode s"
    and "t \<in> set (tasks s)" "PID t \<notin> set (tasksToRemove s)"
    and "\<forall>x\<in>set (tasks s). Stop \<notin> set (cmds (onExecute x))"
    and "condition t = Some AlwaysTrue" "conditionWait t = 0" "\<not> repeat t"
  shows "(executeAt t = 0 \<and> \<not> conditionMet t \<and> 0 < sint (postConditionDelay t) \<longrightarrow>
          (\<exists>s' F. loop now pv s = Some s'
             \<and> findByPID (PID t) (tasks s')
                 = Some (t\<lparr>conditionMet := True,
                           executeAt := if now + postConditionDelay t = 0 then 1
                                        else now + postConditionDelay t\<rparr>)
             \<and> fired s' = fired s @ F \<and> PID t \<notin> set F))
       \<and> (executeAt t = 0 \<and> \<not> conditionMet t \<and> postConditionDelay t = 0 \<and> now \<noteq> 0 \<longrightarrow>
          (\<exists>s' F. loop now pv s = Some s' \<and> PID t \<notin> PID ` set (tasks s')
             \<and> fired s' = fired s @ F \<and> count_list F (PID t) = 1))
       \<and> (executeAt t \<noteq> 0 \<and> conditionMet t \<and> sint (now - executeAt t) < 0 \<longrightarrow>
          (\<exists>s' F. loop now pv s = Some s' \<and> findByPID (PID t) (tasks s') = Some t
             \<and> fired s' = fired s @ F \<and> PID t \<notin> set F))
       \<and> (executeAt t \<noteq> 0 \<and> conditionMet t \<and> 0 \<le> sint (now - executeAt t) \<longrightarrow>
          (\<exists>s' F. loop now pv s = Some s' \<and> PID t \<notin> PID ` set (tasks s')
             \<and> fired s' = fired s @ F \<and> count_list F (PID t) = 1))"
proof (intro conjI impI)
  have ct: "conditionTrue pv t" using assms(8) by (simp add: conditionTrue_def)
  have ind: "indefinite t" using assms(9) by (simp add: indefinite_def)
  {
    assume a: "executeAt t = 0 \<and> \<not> conditionMet t \<and> 0 < sint (postConditionDelay t)"
    let ?dl = "if now + postConditionDelay t = 0 then 1 else now + postConditionDelay t"
    have act: "activate now pv t = t\<lparr>conditionMet := True, executeAt := ?dl\<rparr>"
      using a ct ind by (simp add: activate_def setExecutionTime_def)
    have nd: "\<not> due now (activate now pv t)"
      using a not_due_at_activation[of "postConditionDelay t" now] by (simp add: act due_def)
    have nt: "\<not> timedOut now pv (activate now pv t)"
      by (simp add: act timedOut_def expired_def repairCondition_def)
    have cl: "classify now pv (activate now pv t) = t\<lparr>conditionMet := True, executeAt := ?dl\<rparr>"
      using assms(8)
      by (simp add: act classify_def repairCondition_def meetCondition_def becomesTrue_def)
    from loop_untouched[OF assms(1-7) nd nt]
    show "\<exists>s' F. loop now pv s = Some s'
             \<and> findByPID (PID t) (tasks s') = Some (t\<lparr>conditionMet := True, executeAt := ?dl\<rparr>)
             \<and> fired s' = fired s @ F \<and> PID t \<notin> set F"
      unfolding cl by blast
  }
  {
    assume a: "executeAt t = 0 \<and> \<not> conditionMet t \<and> postConditionDelay t = 0 \<and> now \<noteq> 0"
    have act: "activate now pv t = t\<lparr>conditionMet := True, executeAt := now\<rparr>"
      using a ct ind by (simp add: activate_def setExecutionTime_def)
    have "due now (activate now pv t)" by (simp add: act due_def)
    from loop_fires[OF assms(1-7) this assms(10)]
    show "\<exists>s' F. loop now pv s = Some s' \<and> PID t \<notin> PID ` set (tasks s')
             \<and> fired s' = fired s @ F \<and> count_list F (PID t) = 1" .
  }
  {
    assume a: "executeAt t \<noteq> 0 \<and> conditionMet t \<and> sint (now - executeAt t) < 0"
    have act: "activate now pv t = t" using a by (simp add: activate_def)
    have nd: "\<not> due now (activate now pv t)" using a by (simp add: act due_def)
    have nt: "\<not> timedOut now pv (activate now pv t)"
      using a by (simp add: act timedOut_def expired_def repairCondition_def)
    have cl: "classify now pv (activate now pv t) = t"
      using a assms(8)
      by (simp add: act classify_def repairCondition_def meetCondition_def becomesTrue_def)
    from loop_untouched[OF assms(1-7) nd nt]
    show "\<exists>s' F. loop now pv s = Some s' \<and> findByPID (PID t) (tasks s') = Some t
             \<and> fired s' = fired s @ F \<and> PID t \<notin> set F"
      unfolding cl by blast
  }
  {
    assume a: "executeAt t \<noteq> 0 \<and> conditionMet t \<and> 0 \<le> sint (now - executeAt t)"
    have act: "activate now pv t = t" using a by (simp add: activate_def)
    have "due now (activate now pv t)" using a by (simp add: act due_def)
    from loop_fires[OF assms(1-7) this assms(10)]
    show "\<exists>s' F. loop now pv s = Some s' \<and> PID t \<notin> PID ` set (tasks s')
             \<and> fired s' = fired s @ F \<and> count_list F (PID t) = 1" .
  }
qed

theorem timed_task_fires_once_witness:
  "(\<exists>s' F. loop 4294967196 never (holding timedTask) = Some s'
       \<and> findByPID 1 (tasks s') = Some (timedTask\<lparr>conditionMet := True, executeAt := 1\<rparr>)
       \<and> fired s' = F \<and> 1 \<notin> set F)
   \<and> (\<exists>s' F. loop 1000 never (holding (timedTask\<lparr>postConditionDelay := 0\<rparr>)) = Some s'
       \<and> 1 \<notin> PID ` set (tasks s') \<and> fired s' = F \<and> count_list F 1 = 1)
   \<and> (\<exists>s' F. loop 0 never (holding (timedTask\<lparr>conditionMet := True, executeAt := 1\<rparr>)) = Some s'
       \<and> findByPID 1 (tasks s') = Some (timedTask\<lparr>conditionMet := True, executeAt := 1\<rparr>)
       \<and> fired s' = F \<and> 1 \<notin> set F)
   \<and> (\<exists>s' F. loop 1 never (holding (timedTask\<lparr>conditionMet := True, executeAt := 1\<rparr>)) = Some s'
       \<and> 1 \<notin> PID ` set (tasks s') \<and> fired s' = F \<and> count_list F 1 = 1)"
proof -
  have ok: "store_ok (holding t)" "\<not> onHold (holding t)" "\<not> will_stop (holding t)"
    "\<not> sequentialMode (holding t)"
    "t \<in> set (tasks (holding t))" "PID t \<notin> set (tasksToRemove (holding t))"
    if "PID t \<noteq> 0" for t
    using that by (simp_all add: holding_def init_def store_ok_def pids_ok_def MAX_TASKS_def)
  have ns: "\<forall>x\<in>set (tasks (holding t)). Stop \<notin> set (cmds (onExecute x))"
    if "onExecute t = Action 0 []" for t
    using that by (simp add: holding_def)
  have c: "condition timedTask = Some AlwaysTrue" "conditionWait timedTask = 0" "\<not> repeat timedTask"
    "PID timedTask \<noteq> 0" "onExecute timedTask = Action 0 []"
    by (simp_all add: timedTask_def freshTask_def)
  have a: "\<exists>s' F. loop 4294967196 never (holding timedTask) = Some s'
       \<and> findByPID 1 (tasks s') = Some (timedTask\<lparr>conditionMet := True, executeAt := 1\<rparr>)
       \<and> fired s' = F \<and> 1 \<notin> set F"
    using timed_task_fires_once[where pv = never and now = 4294967196,
        OF ok[OF c(4)] ns[OF c(5)] c(1-3)]
    by (simp add: holding_def init_def timedTask_def freshTask_def fired_def)
  let ?t0 = "timedTask\<lparr>postConditionDelay := 0\<rparr>"
  have c0: "condition ?t0 = Some AlwaysTrue" "conditionWait ?t0 = 0" "\<not> repeat ?t0"
    "PID ?t0 \<noteq> 0" "onExecute ?t0 = Action 0 []"
    by (simp_all add: timedTask_def freshTask_def)
  have b: "\<exists>s' F. loop 1000 never (holding ?t0) = Some s'
       \<and> 1 \<notin> PID ` set (tasks s') \<and> fired s' = F \<and> count_list F 1 = 1"
    using timed_task_fires_once[where pv = never and now = 1000,
        OF ok[OF c0(4)] ns[OF c0(5)] c0(1-3)]
    by (simp add: holding_def init_def timedTask_def freshTask_def fired_def)
  let ?t1 = "timedTask\<lparr>conditionMet := True, executeAt := 1\<rparr>"
  have c1: "condition ?t1 = Some AlwaysTrue" "conditionWait ?t1 = 0" "\<not> repeat ?t1"
    "PID ?t1 \<noteq> 0" "onExecute ?t1 = Action 0 []"
    by (simp_all add: timedTask_def freshTask_def)
  have d: "\<exists>s' F. loop 0 never (holding ?t1) = Some s'
       \<and> findByPID 1 (tasks s') = Some ?t1 \<and> fired s' = F \<and> 1 \<notin> set F"
    using timed_task_fires_once[where pv = never and now = 0,
        OF ok[OF c1(4)] ns[OF c1(5)] c1(1-3)]
    by (simp add: holding_def init_def timedTask_def freshTask_def fired_def)
  have e: "\<exists>s' F. loop 1 never (holding ?t1) = Some s'
       \<and> 1 \<notin> PID ` set (tasks s') \<and> fired s' = F \<and> count_list F 1 = 1"
    using timed_task_fires_once[where pv = never and now = 1,
        OF ok[OF c1(4)] ns[OF c1(5)] c1(1-3)]
    by (simp add: holding_def init_def timedTask_def freshTask_def fired_def)
  show ?thesis using a b d e by blast
qed

theorem timed_task_fires_once_counterexample:
  "(4294967196::u32) + 100 = 0
   \<and> map_option deadlines
        (run [Call (AddTimedTask (Action 0 []) 100 False 0), Loop 4294967196 never] init)
       = Some [(1, 1)]"
  by code_simp

text \<open>
  What a tick does when a dispatched action calls \<open>stop\<close>.  A well-formed scheduler, not
  on hold, no stop pending; the calls of the action are \<open>cs1\<close>, then \<open>stop\<close>, then \<open>cs2\<close>,
  where \<open>cs2\<close> contains neither \<open>stop\<close> nor \<open>removeTask\<close>.  In parallel mode the action
  belongs to \<open>epid\<close>, after the ready tasks \<open>pre\<close> (whose actions returned without a stop)
  and before the ready tasks \<open>rest\<close>; in sequential mode it belongs to the head task.
  Then \<open>loop\<close> returns; the stopping action is the last one invoked in the tick (the
  ready tasks \<open>rest\<close> are not run); the store \<open>tasks sa\<close> at the moment of the \<open>stop\<close> call is
  erased as a whole, and what is left after the tick are the tasks appended by \<open>cs2\<close>.
\<close>

lemma stop_in_action_tick:
  assumes "store_ok s" "\<not> onHold s" "\<not> will_stop s" "tasks s \<noteq> []"
    and "cmds act = cs1 @ Stop # cs2" "list_all keeps_ledger cs2"
  shows "(\<not> sequentialMode s
            \<and> execPIDs now pv (tasks (enterLoop s)) = pre @ epid # rest
            \<and> dispatch pre (afterPasses now pv (enterLoop s)) = Some (None, sm)
            \<and> getTaskActionByPID epid sm = Some act \<longrightarrow>
          (\<exists>sa sc s'. exec_cmds cs1 (sm\<lparr>trace := trace sm @ [(epid, act)]\<rparr>) = Some sa
             \<and> exec_cmds cs2 (stop sa) = Some sc
             \<and> loop now pv s = Some s'
             \<and> fired s' = fired sm @ [epid]
             \<and> take (length (tasks sa)) (tasks sc) = tasks sa
             \<and> tasks s' = drop (length (tasks sa)) (tasks sc)))
       \<and> (sequentialMode s
            \<and> tasks (enterLoop s) = t0 # rest0 \<and> onExecute t0 = act
            \<and> due now (seqActivate (lastSequentialFinishTime s) t0) \<longrightarrow>
          (\<exists>sa sc s'. exec_cmds cs1 ((enterLoop s)\<lparr>trace := trace s @ [(PID t0, act)]\<rparr>) = Some sa
             \<and> exec_cmds cs2 (stop sa) = Some sc
             \<and> loop now pv s = Some s'
             \<and> fired s' = fired s @ [PID t0]
             \<and> take (length (tasks sa)) (tasks sc) = tasks sa
             \<and> tasks s' = drop (length (tasks sa)) (tasks sc)))"
proof (intro conjI impI)
  let ?s0 = "enterLoop s"
  have ok0: "store_ok ?s0" using assms(1) by (rule store_ok_enterLoop)
  have l0: "ledger_ok ?s0" by (simp add: ledger_ok_def)
  {
    assume a: "\<not> sequentialMode s
            \<and> execPIDs now pv (tasks ?s0) = pre @ epid # rest
            \<and> dispatch pre (afterPasses now pv ?s0) = Some (None, sm)
            \<and> getTaskActionByPID epid sm = Some act"
    let ?s2 = "afterPasses now pv ?s0"
    let ?rm = "removePIDs now pv (tasks ?s0)"
    have ok2: "store_ok ?s2" using ok0 by (simp add: store_ok_afterPasses)
    have i2: "inLoop ?s2" "ledger_ok ?s2" by (simp_all add: afterPasses_def ledger_ok_def)
    have m2: "map PID (tasks ?s2) = map PID (tasks ?s0)" by (simp add: afterPasses_def)
    have t2: "PID ` set (tasks ?s2) = PID ` set (tasks ?s0)"
      using arg_cong[OF m2, of set] by (simp only: set_map)
    from a have dp: "dispatch pre ?s2 = Some (None, sm)" by simp
    have em: "extends ?s2 sm" using dispatch_None_extends[OF dp i2(1)] .
    have okm: "store_ok sm" "ledger_ok sm" "inLoop sm"
      using extends_store_ok[OF em ok2] extends_ledger_ok[OF em i2(2)] em i2(1)
      by (simp_all add: extends_def)
    obtain n1 where n1: "tasks sm = tasks ?s2 @ n1" using em by (auto simp: extends_def)
    from stopper[OF okm(1,3,2) assms(5,6), of epid]
    obtain sa sc new pre' where st:
      "exec_cmds cs1 (sm\<lparr>trace := trace sm @ [(epid, act)]\<rparr>) = Some sa"
      "exec_cmds cs2 (stop sa) = Some sc" "run_action epid act sm = Some sc"
      "will_stop sc" "tasks sa = tasks sm @ pre'" "tasks sc = tasks sa @ new"
      "pids_ok (tasks sc)" "set (tasksToRemove sc) = PID ` set (tasks sa)"
      "fired sc = fired sm @ [epid]"
      by blast
    have ga: "getTaskActionByPID epid sm = Some act" using a by simp
    have "dispatch (epid # rest) sm = Some (Some (fst (stopInside sc)), snd (stopInside sc))"
      using ga st(3,4) by simp
    moreover have ex: "execPIDs now pv (tasks ?s0) = pre @ epid # rest" using a by simp
    ultimately have d: "dispatch (execPIDs now pv (tasks ?s0)) ?s2
                    = Some (Some (fst (stopInside sc)), snd (stopInside sc))"
      using dp by (simp add: dispatch_append)
    have dist: "distinct (map PID (tasks sa @ new))" using st(6,7) by (simp add: pids_ok_def)
    have "set ?rm \<subseteq> PID ` set (tasks ?s0)" by (rule removePIDs_subset)
    also have "\<dots> \<subseteq> PID ` set (tasks sa)" using t2 n1 st(5) by auto
    finally have rmsub: "set ?rm \<subseteq> PID ` set (tasks sa)" .
    have fs: "fst (stopInside sc) = filter (\<lambda>p. findByPID p (tasks sa @ new) \<noteq> None) (tasksToRemove sc)"
      "tasks (snd (stopInside sc)) = fold clearRepeat (tasksToRemove sc) (tasks sa @ new)"
      "trace (snd (stopInside sc)) = trace sc"
      by (simp_all add: stopInside_def st(6))
    let ?rc = "reconcile (fst (stopInside sc)) (tasks (snd (stopInside sc))) ?rm"
    have fin: "commitRemovals (snd ?rc) (fst ?rc) = new"
      unfolding fs using dist st(8) rmsub by (rule commit_after_stop)
    have rc: "reconcile (case Some (fst (stopInside sc)) of None \<Rightarrow> execPIDs now pv (tasks ?s0)
                         | Some ps \<Rightarrow> ps) (tasks (snd (stopInside sc))) ?rm = (fst ?rc, snd ?rc)"
      by simp
    have pl: "parallelLoop now pv ?s0 = Some ((snd (stopInside sc))\<lparr>tasks := new\<rparr>)"
      using parallelLoop_unfold[OF d rc] fin by simp
    have nonseq: "\<not> sequentialMode s" using a by simp
    have lp: "loop now pv s = Some ((snd (stopInside sc))\<lparr>tasks := new, inLoop := False\<rparr>)"
      using loop_parallel[OF assms(2) assms(4) assms(3) nonseq, of now pv] pl by simp
    have f': "fired ((snd (stopInside sc))\<lparr>tasks := new, inLoop := False\<rparr>) = fired sm @ [epid]"
      using st(9) fs(3) by (simp add: fired_def)
    have tk: "take (length (tasks sa)) (tasks sc) = tasks sa"
      "drop (length (tasks sa)) (tasks sc) = new" by (simp_all add: st(6))
    show "\<exists>sa sc s'. exec_cmds cs1 (sm\<lparr>trace := trace sm @ [(epid, act)]\<rparr>) = Some sa
             \<and> exec_cmds cs2 (stop sa) = Some sc
             \<and> loop now pv s = Some s'
             \<and> fired s' = fired sm @ [epid]
             \<and> take (length (tasks sa)) (tasks sc) = tasks sa
             \<and> tasks s' = drop (length (tasks sa)) (tasks sc)"
      apply (rule exI[of _ sa], rule exI[of _ sc])
      apply (rule exI[of _ "(snd (stopInside sc))\<lparr>tasks := new, inLoop := False\<rparr>"])
      using st(1,2) lp f' tk by simp
  }
  {
    assume a: "sequentialMode s \<and> tasks ?s0 = t0 # rest0 \<and> onExecute t0 = act
            \<and> due now (seqActivate (lastSequentialFinishTime s) t0)"
    have i0: "inLoop ?s0" by simp
    from stopper[OF ok0 i0 l0 assms(5,6), of "PID t0"]
    obtain sa sc new pre' where st:
      "exec_cmds cs1 (?s0\<lparr>trace := trace ?s0 @ [(PID t0, act)]\<rparr>) = Some sa"
      "exec_cmds cs2 (stop sa) = Some sc" "run_action (PID t0) act ?s0 = Some sc"
      "will_stop sc" "tasks sc = tasks sa @ new"
      "pids_ok (tasks sc)" "set (tasksToRemove sc) = PID ` set (tasks sa)"
      "fired sc = fired ?s0 @ [PID t0]"
      by blast
    have dist: "distinct (map PID (tasks sa @ new))" using st(5,6) by (simp add: pids_ok_def)
    have er: "fold eraseByPID (tasksToRemove sc) (tasks sc) = new"
      using erase_prefix[OF dist st(7)] st(5) by simp
    have du: "due now (seqActivate (lastSequentialFinishTime ?s0) t0)" using a by simp
    have e0: "tasks ?s0 = t0 # rest0" and ox: "onExecute t0 = act" using a by simp_all
    have sl: "sequentialLoop now pv ?s0
            = Some (sc\<lparr>will_stop := False, tasks := new, tasksToRemove := [],
                       lastSequentialFinishTime := now\<rparr>)"
      using sequentialLoop_execute[OF e0 refl du, of pv] ox st(3,4) er by simp
    have seq: "sequentialMode s" using a by simp
    have lp: "loop now pv s
            = Some (sc\<lparr>will_stop := False, tasks := new, tasksToRemove := [],
                       lastSequentialFinishTime := now, inLoop := False\<rparr>)"
      using loop_sequential[OF assms(2) assms(4) assms(3) seq, of now pv] sl by simp
    have f': "fired (sc\<lparr>will_stop := False, tasks := new, tasksToRemove := [],
                       lastSequentialFinishTime := now, inLoop := False\<rparr>) = fired s @ [PID t0]"
      using st(8) by (simp add: fired_def)
    have tk: "take (length (tasks sa)) (tasks sc) = tasks sa"
      "drop (length (tasks sa)) (tasks sc) = new" by (simp_all add: st(5))
    have st1: "exec_cmds cs1 (?s0\<lparr>trace := trace s @ [(PID t0, act)]\<rparr>) = Some sa"
      using st(1) by simp
    show "\<exists>sa sc s'. exec_cmds cs1 (?s0\<lparr>trace := trace s @ [(PID t0, act)]\<rparr>) = Some sa
             \<and> exec_cmds cs2 (stop sa) = Some sc
             \<and> loop now pv s = Some s'
             \<and> fired s' = fired s @ [PID t0]
             \<and> take (length (tasks sa)) (tasks sc) = tasks sa
             \<and> tasks s' = drop (length (tasks sa)) (tasks sc)"
      apply (rule exI[of _ sa], rule exI[of _ sc])
      apply (rule exI[of _ "sc\<lparr>will_stop := False, tasks := new, tasksToRemove := [],
                       lastSequentialFinishTime := now, inLoop := False\<rparr>"])
      using st1 st(2) lp f' tk by simp
  }
qed

lemma stop_in_action_tick_example:
  "(\<exists>sa sc s'.
       exec_cmds [AddTimedTask (Action 1 []) 10 False 0]
         ((afterPasses 1000 never (enterLoop (twoReady False)))
            \<lparr>trace := trace (afterPasses 1000 never (enterLoop (twoReady False))) @ [(1, stopAct)]\<rparr>)
         = Some sa
     \<and> exec_cmds [AddTimedTask (Action 2 []) 10 False 0] (stop sa) = Some sc
     \<and> loop 1000 never (twoReady False) = Some s'
     \<and> fired s' = [1]
     \<and> take (length (tasks sa)) (tasks sc) = tasks sa
     \<and> tasks s' = drop (length (tasks sa)) (tasks sc))
   \<and> (\<exists>sa sc s'.
       exec_cmds [AddTimedTask (Action 1 []) 10 False 0]
         ((enterLoop (twoReady True))\<lparr>trace := trace (twoReady True) @ [(1, stopAct)]\<rparr>) = Some sa
     \<and> exec_cmds [AddTimedTask (Action 2 []) 10 False 0] (stop sa) = Some sc
     \<and> loop 1000 never (twoReady True) = Some s'
     \<and> fired s' = [1]
     \<and> take (length (tasks sa)) (tasks sc) = tasks sa
     \<and> tasks s' = drop (length (tasks sa)) (tasks sc))"
proof -
  have ok: "store_ok (twoReady b)" "\<not> onHold (twoReady b)" "\<not> will_stop (twoReady b)"
    "tasks (twoReady b) \<noteq> []" for b
    by (simp_all add: twoReady_def init_def store_ok_def pids_ok_def readyTask_def freshTask_def
                      MAX_TASKS_def)
  have c: "cmds stopAct = [AddTimedTask (Action 1 []) 10 False 0] @ Stop
                            # [AddTimedTask (Action 2 []) 10 False 0]"
    "list_all keeps_ledger [AddTimedTask (Action 2 []) 10 False 0]"
    by (simp_all add: stopAct_def)
  have p1: "\<not> sequentialMode (twoReady False)" by (simp add: twoReady_def init_def)
  have p2: "execPIDs 1000 never (tasks (enterLoop (twoReady False))) = [] @ 1 # [2]"
    by code_simp
  have p3: "dispatch [] (afterPasses 1000 never (enterLoop (twoReady False)))
              = Some (None, afterPasses 1000 never (enterLoop (twoReady False)))"
    by simp
  have p4: "getTaskActionByPID 1 (afterPasses 1000 never (enterLoop (twoReady False))) = Some stopAct"
    by code_simp
  have p5: "fired (afterPasses 1000 never (enterLoop (twoReady False))) = []"
    by code_simp
  have q1: "sequentialMode (twoReady True)" by (simp add: twoReady_def init_def)
  have q2: "tasks (enterLoop (twoReady True)) = readyTask 1 stopAct # [readyTask 2 (Action 3 [])]"
    by code_simp
  have q3: "onExecute (readyTask 1 stopAct) = stopAct" "PID (readyTask 1 stopAct) = 1"
    by (simp_all add: readyTask_def freshTask_def)
  have q4: "due 1000 (seqActivate (lastSequentialFinishTime (twoReady True)) (readyTask 1 stopAct))"
    by code_simp
  have q5: "fired (twoReady True) = []" by code_simp
  have a: "\<exists>sa sc s'.
       exec_cmds [AddTimedTask (Action 1 []) 10 False 0]
         ((afterPasses 1000 never (enterLoop (twoReady False)))
            \<lparr>trace := trace (afterPasses 1000 never (enterLoop (twoReady False))) @ [(1, stopAct)]\<rparr>)
         = Some sa
     \<and> exec_cmds [AddTimedTask (Action 2 []) 10 False 0] (stop sa) = Some sc
     \<and> loop 1000 never (twoReady False) = Some s'
     \<and> fired s' = [1]
     \<and> take (length (tasks sa)) (tasks sc) = tasks sa
     \<and> tasks s' = drop (length (tasks sa)) (tasks sc)"
    using stop_in_action_tick[OF ok[of False] c,
        where now = 1000 and pv = never and pre = "[]" and epid = 1 and rest = "[2]"
          and sm = "afterPasses 1000 never (enterLoop (twoReady False))"]
      p1 p2 p3 p4 p5 by simp
  have b: "\<exists>sa sc s'.
       exec_cmds [AddTimedTask (Action 1 []) 10 False 0]
         ((enterLoop (twoReady True))\<lparr>trace := trace (twoReady True) @ [(1, stopAct)]\<rparr>) = Some sa
     \<and> exec_cmds [AddTimedTask (Action 2 []) 10 False 0] (stop sa) = Some sc
     \<and> loop 1000 never (twoReady True) = Some s'
     \<and> fired s' = [1]
     \<and> take (length (tasks sa)) (tasks sc) = tasks sa
     \<and> tasks s' = drop (length (tasks sa)) (tasks sc)"
    using stop_in_action_tick[OF ok[of True] c,
        where now = 1000 and pv = never and ?t0.0 = "readyTask 1 stopAct"
          and ?rest0.0 = "[readyTask 2 (Action 3 [])]"]
      q1 q2 q3 q4 q5 by simp
  show ?thesis using a b by blast
qed

text \<open>
  C4 (the code departs from the claim).  A task that the stopping action added before
  its \<open>stop\<close> call does not survive the tick.  With the single task A whose action is
  \<^verbatim>\<open>{ addTimedTask(B, 10); stop(); }\<close>, in parallel mode and in sequential mode: after
  the tick that runs A the store is empty, and B never runs in later ticks (only A, with
  PID 1, was ever invoked).  When the action calls \<open>stop\<close> first and adds B afterwards, B
  (with PID 2) is in the store after the tick, and in parallel mode it runs later.
\<close>

theorem stop_erases_task_added_before:
  "map_option pids (run [Call (AddTimedTask addThenStop 0 False 0), Loop 1000 never] init) = Some []
   \<and> map_option fired (run [Call (AddTimedTask addThenStop 0 False 0), Loop 1000 never] init) = Some [1]
   \<and> map_option fired (run [Call (AddTimedTask addThenStop 0 False 0),
                              Loop 1000 never, Loop 1010 never, Loop 1020 never] init) = Some [1]
   \<and> map_option pids (run [Call (SetAndStartSequentialMode True 1000),
                             Call (AddTimedTask addThenStop 0 False 0),
                             Loop 1000 never, Loop 1000 never] init) = Some []
   \<and> map_option fired (run [Call (SetAndStartSequentialMode True 1000),
                              Call (AddTimedTask addThenStop 0 False 0),
                              Loop 1000 never, Loop 1000 never, Loop 1010 never, Loop 1020 never] init)
       = Some [1]
   \<and> map_option pids (run [Call (AddTimedTask stopThenAdd 0 False 0), Loop 1000 never] init) = Some [2]
   \<and> map_option fired (run [Call (AddTimedTask stopThenAdd 0 False 0),
                              Loop 1000 never, Loop 1010 never, Loop 1020 never] init) = Some [1, 2]
   \<and> map_option pids (run [Call (SetAndStartSequentialMode True 1000),
                             Call (AddTimedTask stopThenAdd 0 False 0),
                             Loop 1000 never, Loop 1000 never] init) = Some [2]"
  by code_simp

text \<open>
  C10.  When \<open>loop\<close> is called on hold, or with an empty store, it returns the scheduler
  unchanged in every field: a pending \<open>will_stop\<close> stays set and the removal ledger stays
  as it is, so that a removal requested by \<open>stop\<close> or \<open>removeTask\<close> while held has no
  effect as long as the scheduler is held.  It takes effect at the first \<open>loop\<close> call
  after \<open>resume\<close>.  With a stop pending, that call returns the store without the tasks
  named in the ledger and clears the flag and the ledger.  With only removals pending
  (\<open>removeTask\<close>), that call first erases the tasks named in the ledger and clears the
  ledger, and runs its tick on the remaining store; the action of a task named in the
  ledger is not run, and, when no stored action adds a task, no task with such a PID is
  in the store when the call returns.
\<close>

theorem loop_on_hold_frame:
  "(onHold s \<or> tasks s = [] \<longrightarrow> loop now pv s = Some s)
   \<and> (onHold s \<and> tasks s \<noteq> [] \<and> will_stop s \<longrightarrow>
        loop now pv (resume s) = Some (clearMarkedForRemoval ((resume s)\<lparr>will_stop := False\<rparr>)))
   \<and> (store_ok s \<and> onHold s \<and> tasks s \<noteq> [] \<and> will_stop s \<longrightarrow>
        loop now pv (resume s)
          = Some (s\<lparr>onHold := False, will_stop := False,
                    tasks := filter (\<lambda>t. PID t \<notin> set (tasksToRemove s)) (tasks s),
                    tasksToRemove := []\<rparr>))
   \<and> (store_ok s \<and> onHold s \<and> tasks s \<noteq> [] \<and> \<not> will_stop s \<longrightarrow>
        loop now pv (resume s)
          = map_option (\<lambda>r. r\<lparr>inLoop := False\<rparr>)
              ((if sequentialMode s then sequentialLoop now pv else parallelLoop now pv)
                 (s\<lparr>onHold := False,
                    tasks := filter (\<lambda>t. PID t \<notin> set (tasksToRemove s)) (tasks s),
                    tasksToRemove := [], inLoop := True\<rparr>)))
   \<and> (store_ok s \<and> onHold s \<and> p \<in> set (tasksToRemove s)
         \<and> (\<forall>t\<in>set (tasks s). no_adds (onExecute t)) \<longrightarrow>
        (\<exists>s' F. loop now pv (resume s) = Some s' \<and> p \<notin> PID ` set (tasks s')
            \<and> fired s' = fired s @ F \<and> p \<notin> set F))"
proof (intro conjI impI)
  show "loop now pv s = Some s" if "onHold s \<or> tasks s = []"
    using that by (auto simp: loop_def)
  show "loop now pv (resume s) = Some (clearMarkedForRemoval ((resume s)\<lparr>will_stop := False\<rparr>))"
    if "onHold s \<and> tasks s \<noteq> [] \<and> will_stop s"
    using that by (simp add: loop_def resume_def)
  show "loop now pv (resume s)
          = Some (s\<lparr>onHold := False, will_stop := False,
                    tasks := filter (\<lambda>t. PID t \<notin> set (tasksToRemove s)) (tasks s),
                    tasksToRemove := []\<rparr>)"
    if "store_ok s \<and> onHold s \<and> tasks s \<noteq> [] \<and> will_stop s"
    using that
    by (simp add: loop_def resume_def clearMarkedForRemoval_def fold_eraseByPID_filter
                  store_ok_def pids_ok_def)
  show "loop now pv (resume s)
          = map_option (\<lambda>r. r\<lparr>inLoop := False\<rparr>)
              ((if sequentialMode s then sequentialLoop now pv else parallelLoop now pv)
                 (s\<lparr>onHold := False,
                    tasks := filter (\<lambda>t. PID t \<notin> set (tasksToRemove s)) (tasks s),
                    tasksToRemove := [], inLoop := True\<rparr>))"
    if a: "store_ok s \<and> onHold s \<and> tasks s \<noteq> [] \<and> \<not> will_stop s"
  proof -
    have d: "distinct (map PID (tasks s))" using a by (simp add: store_ok_def pids_ok_def)
    have "enterLoop (resume s)
            = s\<lparr>onHold := False,
                 tasks := filter (\<lambda>t. PID t \<notin> set (tasksToRemove s)) (tasks s),
                 tasksToRemove := [], inLoop := True\<rparr>"
      using fold_eraseByPID_filter[OF d, of "tasksToRemove s"]
      by (cases "tasksToRemove s = []") (simp_all add: enterLoop_def resume_def clearMarkedForRemoval_def)
    then show ?thesis using a by (simp add: loop_def resume_def)
  qed
  show "\<exists>s' F. loop now pv (resume s) = Some s' \<and> p \<notin> PID ` set (tasks s')
            \<and> fired s' = fired s @ F \<and> p \<notin> set F"
    if a: "store_ok s \<and> onHold s \<and> p \<in> set (tasksToRemove s)
         \<and> (\<forall>t\<in>set (tasks s). no_adds (onExecute t))"
  proof -
    have h: "store_ok (resume s)" "\<not> onHold (resume s)"
      "\<forall>t\<in>set (tasks (resume s)). no_adds (onExecute t)"
      using a by (simp_all add: resume_def store_ok_def)
    from loop_noadd[OF h, of now pv] obtain s' F where r: "loop now pv (resume s) = Some s'"
      "PID ` set (tasks s') \<subseteq> PID ` set (tasks (resume s)) - set (tasksToRemove (resume s))"
      "fired s' = fired (resume s) @ F"
      "set F \<subseteq> PID ` set (tasks (resume s)) - set (tasksToRemove (resume s))"
      by blast
    have p: "p \<in> set (tasksToRemove (resume s))" using a by (simp add: resume_def)
    have "p \<notin> PID ` set (tasks s')" using r(2) p by blast
    moreover have "p \<notin> set F" using r(4) p by blast
    moreover have "fired s' = fired s @ F" using r(3) by (simp add: resume_def fired_def)
    ultimately show ?thesis using r(1) by blast
  qed
qed

theorem loop_on_hold_frame_witness:
  "loop 1000 never (heldRemoval False) = Some (heldRemoval False)
   \<and> loop 1000 never (heldRemoval True) = Some (heldRemoval True)
   \<and> loop 1000 never (resume (heldRemoval True))
       = Some ((heldRemoval True)\<lparr>onHold := False, will_stop := False,
                 tasks := [timedTask\<lparr>PID := 2\<rparr>], tasksToRemove := []\<rparr>)
   \<and> (\<exists>s' F. loop 1000 never (resume (heldRemoval False)) = Some s'
          \<and> 1 \<notin> PID ` set (tasks s') \<and> fired s' = F \<and> 1 \<notin> set F)
   \<and> map_option pids (loop 1000 never (resume (heldRemoval False))) = Some [2]"
proof -
  have h: "store_ok (heldRemoval b)" "onHold (heldRemoval b)" "tasks (heldRemoval b) \<noteq> []"
    "1 \<in> set (tasksToRemove (heldRemoval b))"
    "\<forall>t\<in>set (tasks (heldRemoval b)). no_adds (onExecute t)"
    "will_stop (heldRemoval b) = b" "fired (heldRemoval b) = []"
    "filter (\<lambda>t. PID t \<notin> set (tasksToRemove (heldRemoval b))) (tasks (heldRemoval b))
       = [timedTask\<lparr>PID := 2\<rparr>]" for b
    by (simp_all add: heldRemoval_def init_def store_ok_def pids_ok_def timedTask_def freshTask_def
                      MAX_TASKS_def no_adds_def fired_def)
  have a: "loop 1000 never (heldRemoval False) = Some (heldRemoval False)"
    using loop_on_hold_frame[of "heldRemoval False" 1000 never] h(2)[of False] by simp
  have b: "loop 1000 never (heldRemoval True) = Some (heldRemoval True)"
    using loop_on_hold_frame[of "heldRemoval True" 1000 never] h(2)[of True] by simp
  have c: "loop 1000 never (resume (heldRemoval True))
       = Some ((heldRemoval True)\<lparr>onHold := False, will_stop := False,
                 tasks := [timedTask\<lparr>PID := 2\<rparr>], tasksToRemove := []\<rparr>)"
    using loop_on_hold_frame[of "heldRemoval True" 1000 never,
        THEN conjunct2, THEN conjunct2, THEN conjunct1]
      h(1,2,3,6,8)[of True] by simp
  have d: "\<exists>s' F. loop 1000 never (resume (heldRemoval False)) = Some s'
          \<and> 1 \<notin> PID ` set (tasks s') \<and> fired s' = F \<and> 1 \<notin> set F"
    using loop_on_hold_frame[of "heldRemoval False" 1000 never 1,
        THEN conjunct2, THEN conjunct2, THEN conjunct2, THEN conjunct2]
      h(1,2,4,5,7)[of False] by simp
  have e: "map_option pids (loop 1000 never (resume (heldRemoval False))) = Some [2]"
    by code_simp
  show ?thesis using a b c d e by blast
qed

end
